theory Spec2Isabelle
  imports Main "HOL-Library.Word"
begin

unbundle bit_operations_syntax

section \<open>Python values used by \<open>sha256_simple\<close>\<close>

text \<open>
  The program is one Python function, \<open>sha256_simple(message)\<close>, with nested helpers.
  A Python \<open>str\<close> is a sequence of code points, so the message is a list of naturals
  (\<open>ord(c)\<close> of each character). The bit strings the program builds are Python strings
  of the characters \<open>0\<close> and \<open>1\<close>, one character per bit; they are modelled as
  \<open>string\<close>. Python integers are unbounded: they are \<open>int\<close>, with \<open>&\<close>, \<open>|\<close>,
  \<open>^\<close>, \<open>~\<close>, \<open><<\<close> and \<open>>>\<close> as the bit operations of \<open>int\<close> (two's complement
  of infinite width, as in Python).
\<close>

datatype py_error = ValueError

type_synonym pystr = "nat list"

text \<open>
  A Python \<open>str\<close> has at most \<open>sys.maxsize\<close> characters (\<open>2^63 - 1\<close> on a 64-bit build,
  \<open>2^31 - 1\<close> on a 32-bit one), so the bit string \<open>to_binary\<close> builds, itself a \<open>str\<close>, is never
  longer. HOL lists have no such bound: \<open>py_str\<close> says that a list is short enough to be a
  Python \<open>str\<close>, and the statements about whole messages are for messages whose bit string
  is one. All they use of the bound is that it is below \<open>2^64\<close>.
\<close>

definition sys_maxsize :: nat where
  "sys_maxsize = 2 ^ 63 - 1"

definition py_str :: "'a list \<Rightarrow> bool" where
  "py_str s = (length s \<le> sys_maxsize)"

definition digit_char :: "nat \<Rightarrow> char" where
  "digit_char d = ''0123456789abcdef'' ! d"

text \<open>The digits of a non-negative integer in base 2 and base 16, most significant first,
  as the format types \<open>b\<close> and \<open>x\<close> print them (\<open>0\<close> prints as one digit).\<close>

fun bin_digits :: "nat \<Rightarrow> string" where
  "bin_digits n = (if n < 2 then [digit_char n] else bin_digits (n div 2) @ [digit_char (n mod 2)])"

function hex_digits :: "int \<Rightarrow> string" where
  "hex_digits n =
     (if n < 16 then [digit_char (nat n)] else hex_digits (n div 16) @ [digit_char (nat (n mod 16))])"
  by pat_completeness auto
termination
  by (relation "measure nat") auto

declare bin_digits.simps [simp del] hex_digits.simps [simp del]

definition zfill :: "nat \<Rightarrow> string \<Rightarrow> string" where
  "zfill w s = replicate (w - length s) (CHR ''0'') @ s"

text \<open>\<open>f"{n:08b}"\<close> and \<open>f"{n:064b}"\<close>: at least \<open>w\<close> characters, zero-filled on the left.
  The program formats only \<open>ord(c)\<close> and \<open>len(bin_msg)\<close> this way, which are never
  negative.\<close>

definition format_b :: "nat \<Rightarrow> nat \<Rightarrow> string" where
  "format_b w n = zfill w (bin_digits n)"

text \<open>\<open>f"{value:08x}"\<close> on a Python integer: a negative value prints its sign first and
  the zero-filling counts the sign in the width.\<close>

definition format_x :: "nat \<Rightarrow> int \<Rightarrow> string" where
  "format_x w v =
     (if v < 0 then CHR ''-'' # zfill (w - 1) (hex_digits (- v))
      else zfill w (hex_digits v))"

text \<open>\<open>int(s, 2)\<close> on a string of binary digits; the empty string raises \<open>ValueError\<close>.
  The strings the program passes are slices of the padded bit string, which holds only
  the characters \<open>0\<close> and \<open>1\<close> (lemma \<open>bit_string_pad_message\<close>); a string with any
  other character is \<open>ValueError\<close> here (Python's \<open>int\<close> would also read a sign,
  blanks, underscores and a \<open>0b\<close> prefix, which never occur).\<close>

fun bin_value :: "int \<Rightarrow> string \<Rightarrow> py_error + int" where
  "bin_value acc [] = Inr acc"
| "bin_value acc (c # cs) =
     (if c = CHR ''0'' then bin_value (2 * acc) cs
      else if c = CHR ''1'' then bin_value (2 * acc + 1) cs
      else Inl ValueError)"

definition int_base2 :: "string \<Rightarrow> py_error + int" where
  "int_base2 s = (if s = [] then Inl ValueError else bin_value 0 s)"

section \<open>Step 1: message to bit string\<close>

definition to_binary :: "pystr \<Rightarrow> string" where
  "to_binary msg = concat (map (format_b 8) msg)"

section \<open>Step 2: padding\<close>

text \<open>The loop \<open>while (len(bin_msg) + 64) % 512 != 0: bin_msg += '0'\<close>.\<close>

function pad_zeros :: "string \<Rightarrow> string" where
  "pad_zeros s = (if (length s + 64) mod 512 \<noteq> 0 then pad_zeros (s @ ''0'') else s)"
  by pat_completeness auto
termination
proof (relation "measure (\<lambda>s. (512 - (length s + 64) mod 512) mod 512)")
  show "wf (measure (\<lambda>s. (512 - (length s + 64) mod 512) mod 512))" by simp
next
  fix s :: string
  assume a: "(length s + 64) mod 512 \<noteq> 0"
  define m where "m = (length s + 64) mod 512"
  have m: "m \<noteq> 0" "m < 512" using a by (simp_all add: m_def)
  have "(length (s @ ''0'') + 64) mod 512 = (m + 1) mod 512"
    by (simp add: m_def mod_Suc_eq)
  moreover have "(512 - (m + 1) mod 512) mod 512 < (512 - m) mod 512"
  proof (cases "m = 511")
    case True
    then show ?thesis by simp
  next
    case False
    with m have "m + 1 < 512" by simp
    with m show ?thesis by simp
  qed
  ultimately show "(s @ ''0'', s) \<in> measure (\<lambda>s. (512 - (length s + 64) mod 512) mod 512)"
    by (simp add: m_def)
qed

declare pad_zeros.simps [simp del]

definition pad_message :: "string \<Rightarrow> string" where
  "pad_message bin_msg =
     (let original_len = length bin_msg
      in pad_zeros (bin_msg @ ''1'') @ format_b 64 original_len)"

section \<open>Step 3: chunks and message schedule\<close>

text \<open>\<open>[padded_msg[i:i+512] for i in range(0, len(padded_msg), 512)]\<close>: the range has
  \<open>\<lceil>len / 512\<rceil>\<close> elements, and a slice past the end is shorter.\<close>

definition create_chunks :: "string \<Rightarrow> string list" where
  "create_chunks padded_msg =
     map (\<lambda>k. take 512 (drop (512 * k) padded_msg)) [0 ..< (length padded_msg + 511) div 512]"

text \<open>A list comprehension over a call that may raise: the first error ends it.\<close>

fun collect :: "(py_error + 'a) list \<Rightarrow> py_error + 'a list" where
  "collect [] = Inr []"
| "collect (Inl e # _) = Inl e"
| "collect (Inr x # xs) = (case collect xs of Inl e \<Rightarrow> Inl e | Inr ys \<Rightarrow> Inr (x # ys))"

definition mask32 :: int where
  "mask32 = 0xFFFFFFFF"

text \<open>The two mixing values of the schedule, as written in the loop body: the rotations
  are \<open>x >> n | x << (32 - n)\<close> with no mask, so \<open>s0\<close> and \<open>s1\<close> may exceed 32 bits.
  \<open>words[-k]\<close> is the \<open>k\<close>-th element from the end; the list has at least 16 elements
  whenever the loop runs.\<close>

definition sched_s0 :: "int list \<Rightarrow> int" where
  "sched_s0 words =
     (let x = words ! (length words - 15)
      in ((drop_bit 7 x OR push_bit (32 - 7) x) XOR
          (drop_bit 18 x OR push_bit (32 - 18) x)) XOR
          drop_bit 3 x)"

definition sched_s1 :: "int list \<Rightarrow> int" where
  "sched_s1 words =
     (let x = words ! (length words - 2)
      in ((drop_bit 17 x OR push_bit (32 - 17) x) XOR
          (drop_bit 19 x OR push_bit (32 - 19) x)) XOR
          drop_bit 10 x)"

definition next_word :: "int list \<Rightarrow> int" where
  "next_word words =
     (words ! (length words - 16) + sched_s0 words + words ! (length words - 7) + sched_s1 words)
       AND mask32"

function extend_words :: "int list \<Rightarrow> int list" where
  "extend_words words =
     (if length words < 64 then extend_words (words @ [next_word words]) else words)"
  by pat_completeness auto
termination
  by (relation "measure (\<lambda>ws. 64 - length ws)") auto

declare extend_words.simps [simp del]

definition create_words :: "string \<Rightarrow> py_error + int list" where
  "create_words chunk =
     (case collect (map (\<lambda>k. int_base2 (take 32 (drop (32 * k) chunk))) [0 ..< 16]) of
        Inl e \<Rightarrow> Inl e
      | Inr words \<Rightarrow> Inr (extend_words words))"

section \<open>Step 4: constants\<close>

text \<open>\<open>int(x, 16)\<close> on the words of the two constant tables, which are written in the
  source as blank-separated strings of eight lowercase hexadecimal digits; the list below
  each call is what \<open>split()\<close> returns. A digit's value is its position in
  \<open>0123456789abcdef\<close>; no other character occurs in the tables.\<close>

definition hex_digit :: "char \<Rightarrow> int" where
  "hex_digit c = int (length (takeWhile (\<lambda>d. d \<noteq> c) ''0123456789abcdef''))"

definition int_base16 :: "string \<Rightarrow> int" where
  "int_base16 x = foldl (\<lambda>acc c. 16 * acc + hex_digit c) 0 x"

definition K :: "int list" where
  "K = map int_base16
     [''428a2f98'', ''71374491'', ''b5c0fbcf'', ''e9b5dba5'', ''3956c25b'', ''59f111f1'', ''923f82a4'', ''ab1c5ed5'',
      ''d807aa98'', ''12835b01'', ''243185be'', ''550c7dc3'', ''72be5d74'', ''80deb1fe'', ''9bdc06a7'', ''c19bf174'',
      ''e49b69c1'', ''efbe4786'', ''0fc19dc6'', ''240ca1cc'', ''2de92c6f'', ''4a7484aa'', ''5cb0a9dc'', ''76f988da'',
      ''983e5152'', ''a831c66d'', ''b00327c8'', ''bf597fc7'', ''c6e00bf3'', ''d5a79147'', ''06ca6351'', ''14292967'',
      ''27b70a85'', ''2e1b2138'', ''4d2c6dfc'', ''53380d13'', ''650a7354'', ''766a0abb'', ''81c2c92e'', ''92722c85'',
      ''a2bfe8a1'', ''a81a664b'', ''c24b8b70'', ''c76c51a3'', ''d192e819'', ''d6990624'', ''f40e3585'', ''106aa070'',
      ''19a4c116'', ''1e376c08'', ''2748774c'', ''34b0bcb5'', ''391c0cb3'', ''4ed8aa4a'', ''5b9cca4f'', ''682e6ff3'',
      ''748f82ee'', ''78a5636f'', ''84c87814'', ''8cc70208'', ''90befffa'', ''a4506ceb'', ''bef9a3f7'', ''c67178f2'']"

definition H0 :: "int list" where
  "H0 = map int_base16
     [''6a09e667'', ''bb67ae85'', ''3c6ef372'', ''a54ff53a'', ''510e527f'', ''9b05688c'', ''1f83d9ab'', ''5be0cd19'']"

definition rightrotate :: "int \<Rightarrow> nat \<Rightarrow> int" where
  "rightrotate x n = (drop_bit n x OR push_bit (32 - n) x) AND mask32"

section \<open>Step 5: compression\<close>

record vars =
  va :: int
  vb :: int
  vc :: int
  vd :: int
  ve :: int
  vf :: int
  vg :: int
  vh :: int

text \<open>The expressions of the round, as the loop body writes them.\<close>

definition ch :: "int \<Rightarrow> int \<Rightarrow> int \<Rightarrow> int" where
  "ch e f g = (e AND f) XOR (NOT e AND g)"

definition maj :: "int \<Rightarrow> int \<Rightarrow> int \<Rightarrow> int" where
  "maj a b c = ((a AND b) XOR (a AND c)) XOR (b AND c)"

definition S1 :: "int \<Rightarrow> int" where
  "S1 e = (rightrotate e 6 XOR rightrotate e 11) XOR rightrotate e 25"

definition S0 :: "int \<Rightarrow> int" where
  "S0 a = (rightrotate a 2 XOR rightrotate a 13) XOR rightrotate a 22"

text \<open>One pass of the body of \<open>for i in range(64)\<close>. \<open>K\<close> has 64 entries and so has
  the schedule \<open>w\<close> that \<open>create_words\<close> returns, so \<open>K[i]\<close> and \<open>w[i]\<close> are in range.\<close>

definition round_body :: "int list \<Rightarrow> vars \<Rightarrow> nat \<Rightarrow> vars" where
  "round_body w v i =
     (let temp1 = (vh v + S1 (ve v) + ch (ve v) (vf v) (vg v) + K ! i + w ! i) AND mask32;
          temp2 = (S0 (va v) + maj (va v) (vb v) (vc v)) AND mask32
      in \<lparr>va = (temp1 + temp2) AND mask32, vb = va v, vc = vb v, vd = vc v,
          ve = (vd v + temp1) AND mask32, vf = ve v, vg = vf v, vh = vg v\<rparr>)"

definition rounds :: "int list \<Rightarrow> vars \<Rightarrow> vars" where
  "rounds w v = foldl (round_body w) v [0 ..< 64]"

text \<open>The body of \<open>for chunk in chunks\<close> after \<open>w = create_words(chunk)\<close>. The
  unpacking \<open>a, b, c, d, e, f, g, h = H\<close> raises \<open>ValueError\<close> unless \<open>H\<close> has eight
  elements.\<close>

definition compress :: "int list \<Rightarrow> int list \<Rightarrow> py_error + int list" where
  "compress H w =
     (case H of
        [a, b, c, d, e, f, g, h] \<Rightarrow>
          (let v = rounds w \<lparr>va = a, vb = b, vc = c, vd = d, ve = e, vf = f, vg = g, vh = h\<rparr>
           in Inr (map (\<lambda>(x, y). (x + y) AND mask32)
                    (zip H [va v, vb v, vc v, vd v, ve v, vf v, vg v, vh v])))
      | _ \<Rightarrow> Inl ValueError)"

definition process_chunk :: "int list \<Rightarrow> string \<Rightarrow> py_error + int list" where
  "process_chunk H chunk =
     (case create_words chunk of
        Inl e \<Rightarrow> Inl e
      | Inr w \<Rightarrow> compress H w)"

fun process_chunks :: "int list \<Rightarrow> string list \<Rightarrow> py_error + int list" where
  "process_chunks H [] = Inr H"
| "process_chunks H (chunk # chunks) =
     (case process_chunk H chunk of
        Inl e \<Rightarrow> Inl e
      | Inr H' \<Rightarrow> process_chunks H' chunks)"

section \<open>Step 6: the digest\<close>

definition hex_of_state :: "int list \<Rightarrow> string" where
  "hex_of_state H = concat (map (format_x 8) H)"

definition sha256_simple :: "pystr \<Rightarrow> py_error + string" where
  "sha256_simple message =
     (let bin_msg = to_binary message;
          padded = pad_message bin_msg;
          chunks = create_chunks padded
      in case process_chunks H0 chunks of
           Inl e \<Rightarrow> Inl e
         | Inr H \<Rightarrow> Inr (hex_of_state H))"

section \<open>Notions of the specification\<close>

text \<open>A bit string: every character is \<open>0\<close> or \<open>1\<close>.\<close>

definition bit_string :: "string \<Rightarrow> bool" where
  "bit_string s = (set s \<subseteq> {CHR ''0'', CHR ''1''})"

text \<open>The \<open>k\<close>-bit big-endian encoding of a natural number: position \<open>i\<close> holds bit
  \<open>k - 1 - i\<close>, most significant first.\<close>

definition be_bits :: "nat \<Rightarrow> nat \<Rightarrow> string" where
  "be_bits k n = map (\<lambda>i. if bit n (k - 1 - i) then CHR ''1'' else CHR ''0'') [0 ..< k]"

text \<open>The number of \<open>0\<close> bits that follow the separator bit of a message of \<open>n\<close> bits.\<close>

definition zero_pad :: "nat \<Rightarrow> nat" where
  "zero_pad n = (512 - (n + 65) mod 512) mod 512"

text \<open>A Python integer that is a 32-bit unsigned value.\<close>

definition in32 :: "int \<Rightarrow> bool" where
  "in32 x = (0 \<le> x \<and> x < 2 ^ 32)"

text \<open>The operations of the specification on 32-bit words: circular right rotation,
  zero-filling right shift, and the choose function of FIPS 180-4 with \<open>NOT\<close> the 32-bit
  complement.\<close>

type_synonym word32 = "32 word"

definition rotr :: "nat \<Rightarrow> word32 \<Rightarrow> word32" where
  "rotr n x = word_rotr n x"

definition shr :: "nat \<Rightarrow> word32 \<Rightarrow> word32" where
  "shr n x = drop_bit n x"

definition Ch :: "word32 \<Rightarrow> word32 \<Rightarrow> word32 \<Rightarrow> word32" where
  "Ch x y z = (x AND y) XOR (NOT x AND z)"

text \<open>The value of a bit string read as an unsigned big-endian number.\<close>

definition be_value :: "string \<Rightarrow> int" where
  "be_value s = (\<Sum>i<length s. (if s ! i = CHR ''1'' then 1 else 0) * 2 ^ (length s - 1 - i))"

text \<open>The two mixing functions of the schedule, on 32-bit words.\<close>

definition ssig0 :: "word32 \<Rightarrow> word32" where
  "ssig0 x = (rotr 7 x XOR rotr 18 x) XOR shr 3 x"

definition ssig1 :: "word32 \<Rightarrow> word32" where
  "ssig1 x = (rotr 17 x XOR rotr 19 x) XOR shr 10 x"

text \<open>The sixteen 32-bit slices of a block, each read as a big-endian number.\<close>

definition first_words :: "string \<Rightarrow> int list" where
  "first_words chunk = map (\<lambda>k. be_value (take 32 (drop (32 * k) chunk))) [0 ..< 16]"

text \<open>The compressor of the specification, on 32-bit words: the majority function and the
  two rotation sums, one round on the eight working variables, and the fold-back of the
  working variables into the hash state after 64 rounds.\<close>

definition Maj :: "word32 \<Rightarrow> word32 \<Rightarrow> word32 \<Rightarrow> word32" where
  "Maj x y z = ((x AND y) XOR (x AND z)) XOR (y AND z)"

definition bsig0 :: "word32 \<Rightarrow> word32" where
  "bsig0 x = (rotr 2 x XOR rotr 13 x) XOR rotr 22 x"

definition bsig1 :: "word32 \<Rightarrow> word32" where
  "bsig1 x = (rotr 6 x XOR rotr 11 x) XOR rotr 25 x"

type_synonym regs = "word32 \<times> word32 \<times> word32 \<times> word32 \<times> word32 \<times> word32 \<times> word32 \<times> word32"

fun spec_round :: "word32 list \<Rightarrow> regs \<Rightarrow> nat \<Rightarrow> regs" where
  "spec_round W (a, b, c, d, e, f, g, h) i =
     (let temp1 = h + bsig1 e + Ch e f g + word_of_int (K ! i) + W ! i;
          temp2 = bsig0 a + Maj a b c
      in (temp1 + temp2, a, b, c, d + temp1, e, f, g))"

definition spec_compress :: "word32 list \<Rightarrow> word32 list \<Rightarrow> word32 list" where
  "spec_compress H W =
     (case foldl (spec_round W) (H ! 0, H ! 1, H ! 2, H ! 3, H ! 4, H ! 5, H ! 6, H ! 7) [0 ..< 64] of
        (a, b, c, d, e, f, g, h) \<Rightarrow>
          [H ! 0 + a, H ! 1 + b, H ! 2 + c, H ! 3 + d, H ! 4 + e, H ! 5 + f, H ! 6 + g, H ! 7 + h])"

text \<open>The working variables of the program read as 32-bit words, and the property that
  each of them is a 32-bit value.\<close>

definition wregs :: "vars \<Rightarrow> regs" where
  "wregs v = (word_of_int (va v), word_of_int (vb v), word_of_int (vc v), word_of_int (vd v),
              word_of_int (ve v), word_of_int (vf v), word_of_int (vg v), word_of_int (vh v))"

definition in32v :: "vars \<Rightarrow> bool" where
  "in32v v = (in32 (va v) \<and> in32 (vb v) \<and> in32 (vc v) \<and> in32 (vd v) \<and>
              in32 (ve v) \<and> in32 (vf v) \<and> in32 (vg v) \<and> in32 (vh v))"

text \<open>The \<open>k\<close> lowercase hexadecimal digits of a number, most significant first.\<close>

definition be_hex :: "nat \<Rightarrow> int \<Rightarrow> string" where
  "be_hex k v = map (\<lambda>i. digit_char (nat ((v div 16 ^ (k - 1 - i)) mod 16))) [0 ..< k]"

section \<open>Formatting and padding\<close>

lemma digit_char_bit: "digit_char (n mod 2) = (if bit n 0 then CHR ''1'' else CHR ''0'')"
proof (cases "n mod 2 = 0")
  case True
  then show ?thesis by (simp add: digit_char_def bit_0 even_iff_mod_2_eq_zero)
next
  case False
  then have "n mod 2 = 1" by presburger
  then show ?thesis by (simp add: digit_char_def bit_0 odd_iff_mod_2_eq_one)
qed

lemma zfill_snoc: "zfill (Suc k) (xs @ [c]) = zfill k xs @ [c]"
  by (simp add: zfill_def)

lemma format_b_Suc:
  assumes "1 \<le> k"
  shows "format_b (Suc k) n = format_b k (n div 2) @ [digit_char (n mod 2)]"
proof (cases "n < 2")
  case True
  then have "bin_digits n = [digit_char n]" "bin_digits (n div 2) = [CHR ''0'']" "n mod 2 = n"
    by (simp_all add: bin_digits.simps [of n] bin_digits.simps [of 0] digit_char_def)
  moreover have "replicate k (CHR ''0'') = replicate (k - 1) (CHR ''0'') @ [CHR ''0'']"
    using assms by (cases k) (simp_all add: replicate_append_same)
  ultimately show ?thesis by (simp add: format_b_def zfill_def)
next
  case False
  then have "bin_digits n = bin_digits (n div 2) @ [digit_char (n mod 2)]"
    by (simp add: bin_digits.simps [of n])
  then show ?thesis by (simp add: format_b_def zfill_snoc)
qed

lemma be_bits_Suc: "be_bits (Suc k) n = be_bits k (n div 2) @ [digit_char (n mod 2)]"
proof -
  have "\<And>i. i < k \<Longrightarrow> bit n (k - i) = bit (n div 2) (k - 1 - i)"
  proof -
    fix i assume "i < k"
    then have "k - i = Suc (k - 1 - i)" by simp
    then show "bit n (k - i) = bit (n div 2) (k - 1 - i)" by (simp add: bit_Suc)
  qed
  then show ?thesis by (simp add: be_bits_def digit_char_bit)
qed

lemma format_b_be_bits: "1 \<le> k \<Longrightarrow> n < 2 ^ k \<Longrightarrow> format_b k n = be_bits k n"
proof (induction k arbitrary: n)
  case 0
  then show ?case by simp
next
  case (Suc k)
  show ?case
  proof (cases "k = 0")
    case True
    with Suc.prems have "n < 2" by simp
    then have "bin_digits n = [digit_char n]" "n mod 2 = n"
      by (simp_all add: bin_digits.simps [of n])
    then show ?thesis using True digit_char_bit [of n]
      by (simp add: format_b_def zfill_def be_bits_def)
  next
    case False
    then have k: "1 \<le> k" by simp
    from Suc.prems have "n div 2 < 2 ^ k" by simp
    with Suc.IH k have "format_b k (n div 2) = be_bits k (n div 2)" by simp
    then show ?thesis by (simp add: format_b_Suc [OF k] be_bits_Suc)
  qed
qed

lemma length_be_bits [simp]: "length (be_bits k n) = k"
  by (simp add: be_bits_def)

lemma bit_string_be_bits: "bit_string (be_bits k n)"
  by (auto simp: be_bits_def bit_string_def)

lemma pad_zeros_eq:
  "pad_zeros s = s @ replicate ((512 - (length s + 64) mod 512) mod 512) (CHR ''0'')"
proof (induction s rule: pad_zeros.induct)
  case (1 s)
  define m where "m = (length s + 64) mod 512"
  show ?case
  proof (cases "m = 0")
    case True
    then show ?thesis by (simp add: pad_zeros.simps [of s] m_def)
  next
    case False
    have m: "m < 512" by (simp add: m_def)
    have step: "(length (s @ ''0'') + 64) mod 512 = (m + 1) mod 512"
      by (simp add: m_def mod_Suc_eq)
    have "(512 - m) mod 512 = Suc ((512 - (m + 1) mod 512) mod 512)"
    proof (cases "m = 511")
      case True
      then show ?thesis by simp
    next
      case False
      with m \<open>m \<noteq> 0\<close> show ?thesis by simp
    qed
    then have "replicate ((512 - m) mod 512) (CHR ''0'') =
               ''0'' @ replicate ((512 - (m + 1) mod 512) mod 512) (CHR ''0'')"
      by simp
    moreover have "pad_zeros s = pad_zeros (s @ ''0'')"
      using False by (simp add: pad_zeros.simps [of s] m_def)
    moreover have "pad_zeros (s @ ''0'') =
       (s @ ''0'') @ replicate ((512 - (m + 1) mod 512) mod 512) (CHR ''0'')"
      using 1 False step by (simp add: m_def)
    ultimately show ?thesis by (simp add: m_def)
  qed
qed


lemma to_binary_bytes:
  "\<forall>c\<in>set msg. c \<le> 255 \<Longrightarrow> to_binary msg = concat (map (be_bits 8) msg)"
proof (induction msg)
  case Nil
  then show ?case by (simp add: to_binary_def)
next
  case (Cons c msg)
  then have "c < 2 ^ 8" by simp
  then have "format_b 8 c = be_bits 8 c" by (simp add: format_b_be_bits)
  with Cons show ?case by (simp add: to_binary_def)
qed

lemma length_concat_be_bits: "length (concat (map (be_bits k) msg)) = k * length msg"
  by (induction msg) simp_all

lemma length_bin_digits_gt: "2 ^ k \<le> n \<Longrightarrow> k < length (bin_digits n)"
proof (induction k arbitrary: n)
  case 0
  then show ?case by (simp add: bin_digits.simps [of n])
next
  case (Suc k)
  then have "2 * 2 ^ k \<le> n" by simp
  moreover have "(1::nat) \<le> 2 ^ k" by simp
  ultimately have "2 ^ k \<le> n div 2" "\<not> n < 2" by linarith+
  with Suc.IH [of "n div 2"] show ?case by (simp add: bin_digits.simps [of n])
qed

lemma length_format_b_ge: "w \<le> length (format_b w n)"
  by (simp add: format_b_def zfill_def)

lemma length_format_b_wide: "2 ^ w \<le> n \<Longrightarrow> w < length (format_b w n)"
  using length_bin_digits_gt [of w n] by (simp add: format_b_def zfill_def)

lemma length_to_binary_ge: "8 * length msg \<le> length (to_binary msg)"
proof (induction msg)
  case Nil
  then show ?case by (simp add: to_binary_def)
next
  case (Cons c msg)
  with length_format_b_ge [of 8 c] show ?case by (simp add: to_binary_def)
qed

lemma length_to_binary_wide:
  "\<exists>c\<in>set msg. 256 \<le> c \<Longrightarrow> 8 * length msg < length (to_binary msg)"
proof (induction msg)
  case Nil
  then show ?case by simp
next
  case (Cons c msg)
  show ?case
  proof (cases "256 \<le> c")
    case True
    then have "8 < length (format_b 8 c)" using length_format_b_wide [of 8 c] by simp
    with length_to_binary_ge [of msg] show ?thesis by (simp add: to_binary_def)
  next
    case False
    with Cons.prems have "\<exists>c\<in>set msg. 256 \<le> c" by simp
    with Cons.IH length_format_b_ge [of 8 c] show ?thesis by (simp add: to_binary_def)
  qed
qed

lemma zero_pad_cases: "zero_pad n = (if (n + 65) mod 512 = 0 then 0 else 512 - (n + 65) mod 512)"
  by (simp add: zero_pad_def)

lemma zero_pad_total: "(n + 65 + zero_pad n) mod 512 = 0"
proof -
  define r where "r = (n + 65) mod 512"
  have r: "r < 512" by (simp add: r_def)
  have "(n + 65 + zero_pad n) mod 512 = (r + zero_pad n) mod 512"
    unfolding r_def by (simp add: mod_add_left_eq)
  also have "\<dots> = 0" using r by (simp add: zero_pad_cases r_def [symmetric])
  finally show ?thesis .
qed

lemma zero_pad_lt: "zero_pad n < 512"
  by (simp add: zero_pad_def)

lemma mod_448: "(x + 64) mod 512 = 0 \<longleftrightarrow> x mod 512 = (448::nat)"
proof -
  define r where "r = x mod 512"
  have r: "r < 512" by (simp add: r_def)
  have "(x + 64) mod 512 = (r + 64) mod 512"
    unfolding r_def by (simp add: mod_add_left_eq)
  moreover have "(r + 64) mod 512 = 0 \<longleftrightarrow> r = 448"
  proof (cases "r < 448")
    case True
    then show ?thesis by simp
  next
    case False
    with r have "(r + 64) mod 512 = r + 64 - 512" by (simp add: mod_if)
    with False r show ?thesis by auto
  qed
  ultimately show ?thesis by (simp add: r_def)
qed

lemma zero_pad_448: "(n + 1 + zero_pad n) mod 512 = 448"
proof -
  have "n + 1 + zero_pad n + 64 = n + 65 + zero_pad n" by simp
  then have "(n + 1 + zero_pad n + 64) mod 512 = 0" using zero_pad_total [of n] by (simp only:)
  then show ?thesis by (simp only: mod_448)
qed

lemma zero_pad_least: 
  assumes "j < zero_pad n" shows "(n + 1 + j) mod 512 \<noteq> 448"
proof
  assume "(n + 1 + j) mod 512 = 448"
  then have "(n + 1 + j + 64) mod 512 = 0" by (simp only: mod_448)
  moreover have "n + 1 + j + 64 = n + 65 + j" by simp
  ultimately have "(n + 65 + j) mod 512 = 0" by (simp only:)
  define r where "r = (n + 65) mod 512"
  have r: "r < 512" by (simp add: r_def)
  have "(n + 65 + j) mod 512 = (r + j) mod 512"
    unfolding r_def by (simp add: mod_add_left_eq)
  with \<open>(n + 65 + j) mod 512 = 0\<close> have z: "(r + j) mod 512 = 0" by simp
  from assms have nz: "r \<noteq> 0" and j: "j < 512 - r"
    by (simp_all add: zero_pad_cases r_def [symmetric] split: if_splits)
  then have "r + j < 512" by simp
  then have "(r + j) mod 512 = r + j" by simp
  with z nz show False by simp
qed

lemma multiple_least:
  assumes "512 dvd (a::nat)" "512 dvd m" "b \<le> m" "a < b + 512"
  shows "a \<le> m"
proof (rule ccontr)
  assume "\<not> a \<le> m"
  then have "m < a" by simp
  from assms(1,2) obtain p q where "a = 512 * p" "m = 512 * q" by (auto simp: dvd_def)
  with \<open>m < a\<close> have "q < p" by simp
  then have "q + 1 \<le> p" by simp
  then have "512 * (q + 1) \<le> 512 * p" by (rule mult_le_mono2)
  with \<open>a = 512 * p\<close> \<open>m = 512 * q\<close> have "m + 512 \<le> a" by simp
  with assms(3,4) show False by simp
qed

lemma padded_length_least:
  "512 dvd n + 1 + zero_pad n + 64 \<and> n + 65 \<le> n + 1 + zero_pad n + 64 \<and>
   (\<forall>m. 512 dvd m \<and> n + 65 \<le> m \<longrightarrow> n + 1 + zero_pad n + 64 \<le> m)"
proof -
  have d: "512 dvd n + 1 + zero_pad n + 64"
  proof -
    have "n + 1 + zero_pad n + 64 = n + 65 + zero_pad n" by simp
    then have "(n + 1 + zero_pad n + 64) mod 512 = 0" using zero_pad_total [of n] by (simp only:)
    then show ?thesis by (simp only: dvd_eq_mod_eq_0)
  qed
  have "\<And>m. 512 dvd m \<Longrightarrow> n + 65 \<le> m \<Longrightarrow> n + 1 + zero_pad n + 64 \<le> m"
  proof -
    fix m :: nat assume m: "512 dvd m" "n + 65 \<le> m"
    have "n + 1 + zero_pad n + 64 < (n + 65) + 512" using zero_pad_lt [of n] by simp
    with d m show "n + 1 + zero_pad n + 64 \<le> m" by (rule multiple_least [where b = "n + 65"])
  qed
  with d show ?thesis by simp
qed

lemma pad_message_eq:
  "pad_message s = s @ ''1'' @ replicate (zero_pad (length s)) (CHR ''0'') @ format_b 64 (length s)"
  by (simp add: pad_message_def pad_zeros_eq zero_pad_def Let_def add.commute)

section \<open>The padded message\<close>

lemma length_pad_message:
  "length (pad_message s) = length s + 1 + zero_pad (length s) + length (format_b 64 (length s))"
  by (simp add: pad_message_eq)

lemma py_str_length: "py_str s \<Longrightarrow> length s < 2 ^ 64"
  by (simp add: py_str_def sys_maxsize_def)

lemma length_format_b_64: "n < 2 ^ 64 \<Longrightarrow> length (format_b 64 n) = 64"
  by (simp add: format_b_be_bits)

lemma length_to_binary_bytes: "\<forall>c\<in>set msg. c \<le> 255 \<Longrightarrow> length (to_binary msg) = 8 * length msg"
  by (simp add: to_binary_bytes length_concat_be_bits)

text \<open>
  Claim C5. For every message of \<open>L\<close> bytes (code points at most 255; the bit string, of
  \<open>8 L\<close> bits, is a Python string), the padded bit string is the message bits, each byte
  most-significant-bit first, then one \<open>1\<close> bit, then \<open>zero_pad (8 L)\<close> zero bits, then
  \<open>8 L\<close> as a 64-bit big-endian number; \<open>zero_pad (8 L)\<close> is the least number of zeros that
  brings the length to 448 modulo 512; the padded length is a multiple of 512 and at least
  \<open>8 L + 65\<close>.
\<close>

theorem pad_message_bytes:
  assumes "\<forall>c\<in>set msg. c \<le> 255" and "py_str (to_binary msg)"
  shows "pad_message (to_binary msg) =
           concat (map (be_bits 8) msg) @ ''1'' @
           replicate (zero_pad (8 * length msg)) (CHR ''0'') @ be_bits 64 (8 * length msg) \<and>
         (8 * length msg + 1 + zero_pad (8 * length msg)) mod 512 = 448 \<and>
         (\<forall>j < zero_pad (8 * length msg). (8 * length msg + 1 + j) mod 512 \<noteq> 448) \<and>
         length (pad_message (to_binary msg)) mod 512 = 0 \<and>
         8 * length msg + 65 \<le> length (pad_message (to_binary msg))"
proof -
  let ?L = "8 * length msg"
  have tb: "to_binary msg = concat (map (be_bits 8) msg)"
    using assms(1) by (rule to_binary_bytes)
  have len: "length (to_binary msg) = ?L"
    using assms(1) by (rule length_to_binary_bytes)
  have "length (to_binary msg) < 2 ^ 64" using assms(2) by (rule py_str_length)
  then have "?L < 2 ^ 64" by (simp only: len)
  then have fb: "format_b 64 ?L = be_bits 64 ?L"
    by (simp add: format_b_be_bits)
  have eq: "pad_message (to_binary msg) =
      concat (map (be_bits 8) msg) @ ''1'' @ replicate (zero_pad ?L) (CHR ''0'') @ be_bits 64 ?L"
    using fb len by (simp only: pad_message_eq tb [symmetric])
  have l: "length (pad_message (to_binary msg)) = ?L + 1 + zero_pad ?L + 64"
    using len fb by (simp only: length_pad_message length_be_bits)
  have d: "512 dvd ?L + 1 + zero_pad ?L + 64" and g: "?L + 65 \<le> ?L + 1 + zero_pad ?L + 64"
    using padded_length_least [of ?L] by blast+
  from d l have m: "length (pad_message (to_binary msg)) mod 512 = 0"
    by (simp only: dvd_eq_mod_eq_0)
  from eq zero_pad_448 [of ?L] zero_pad_least [of _ ?L] m g l show ?thesis
    by (simp only:) blast
qed

text \<open>The statement at the message \<open>abc\<close>: 423 zero bits are inserted.\<close>

theorem pad_message_bytes_witness:
  "pad_message (to_binary [97, 98, 99]) =
     concat (map (be_bits 8) [97, 98, 99]) @ ''1'' @
     replicate (zero_pad (8 * length [97, 98, 99::nat])) (CHR ''0'') @
     be_bits 64 (8 * length [97, 98, 99::nat]) \<and>
   zero_pad (8 * length [97, 98, 99::nat]) = 423 \<and>
   length (pad_message (to_binary [97, 98, 99])) mod 512 = 0"
proof -
  have "\<forall>c\<in>set [97, 98, 99::nat]. c \<le> 255" by simp
  moreover have "py_str (to_binary [97, 98, 99])"
    by (simp add: py_str_def sys_maxsize_def length_to_binary_bytes)
  ultimately have "pad_message (to_binary [97, 98, 99]) =
           concat (map (be_bits 8) [97, 98, 99]) @ ''1'' @
           replicate (zero_pad (8 * length [97, 98, 99::nat])) (CHR ''0'') @
           be_bits 64 (8 * length [97, 98, 99::nat]) \<and>
         (8 * length [97, 98, 99::nat] + 1 + zero_pad (8 * length [97, 98, 99::nat])) mod 512 = 448 \<and>
         (\<forall>j < zero_pad (8 * length [97, 98, 99::nat]). (8 * length [97, 98, 99::nat] + 1 + j) mod 512 \<noteq> 448) \<and>
         length (pad_message (to_binary [97, 98, 99])) mod 512 = 0 \<and>
         8 * length [97, 98, 99::nat] + 65 \<le> length (pad_message (to_binary [97, 98, 99]))"
    by (rule pad_message_bytes)
  moreover have "zero_pad (8 * length [97, 98, 99::nat]) = 423" by (simp add: zero_pad_def)
  ultimately show ?thesis by blast
qed

text \<open>
  Claim C6. For every message of \<open>L\<close> bytes (the bit string being a Python string), the
  padded bit length is the smallest multiple of 512 that is at least \<open>8 L + 65\<close>.
\<close>

theorem padded_length_smallest_multiple:
  assumes "\<forall>c\<in>set msg. c \<le> 255" and "py_str (to_binary msg)"
  shows "512 dvd length (pad_message (to_binary msg)) \<and>
         8 * length msg + 65 \<le> length (pad_message (to_binary msg)) \<and>
         (\<forall>m. 512 dvd m \<and> 8 * length msg + 65 \<le> m \<longrightarrow> length (pad_message (to_binary msg)) \<le> m)"
proof -
  let ?L = "8 * length msg"
  have len: "length (to_binary msg) = ?L"
    using assms(1) by (rule length_to_binary_bytes)
  have "length (to_binary msg) < 2 ^ 64" using assms(2) by (rule py_str_length)
  then have "?L < 2 ^ 64" by (simp only: len)
  then have "length (format_b 64 ?L) = 64"
    by (rule length_format_b_64)
  with len have "length (pad_message (to_binary msg)) = ?L + 1 + zero_pad ?L + 64"
    by (simp only: length_pad_message)
  with padded_length_least [of ?L] show ?thesis by simp
qed

text \<open>The statement at a message of 56 bytes: two blocks.\<close>

theorem padded_length_smallest_multiple_witness:
  "length (pad_message (to_binary (replicate 56 97))) = 1024 \<and> 8 * 56 + 65 \<le> (1024::nat)"
proof -
  have "\<forall>c\<in>set (replicate 56 (97::nat)). c \<le> 255" by simp
  moreover have "py_str (to_binary (replicate 56 97))"
    by (simp add: py_str_def sys_maxsize_def length_to_binary_bytes)
  ultimately have "512 dvd length (pad_message (to_binary (replicate 56 97))) \<and>
         8 * length (replicate 56 (97::nat)) + 65 \<le> length (pad_message (to_binary (replicate 56 97))) \<and>
         (\<forall>m. 512 dvd m \<and> 8 * length (replicate 56 (97::nat)) + 65 \<le> m \<longrightarrow> length (pad_message (to_binary (replicate 56 97))) \<le> m)"
    by (rule padded_length_smallest_multiple)
  then have a: "513 \<le> length (pad_message (to_binary (replicate 56 97)))"
    and b: "512 dvd length (pad_message (to_binary (replicate 56 97)))"
    and c: "length (pad_message (to_binary (replicate 56 97))) \<le> 1024"
    by simp_all
  from b obtain q where q: "length (pad_message (to_binary (replicate 56 97))) = 512 * q" by (auto simp: dvd_def)
  with a c have "q = 2" by simp
  with q show ?thesis by simp
qed

section \<open>Code points and bytes\<close>

text \<open>
  Claim C10. When every code point of the message is at most 255, \<open>to_binary\<close> gives
  exactly 8 bits per character, the code point most-significant-bit first, so the bit
  string is that of the byte sequence of length \<open>L\<close>. A character with code point 256 or
  more gives more than 8 bits, and then the bit string is longer than \<open>8 L\<close> and is the bit
  string of no message of \<open>L\<close> bytes.
\<close>

theorem to_binary_code_points:
  "((\<forall>c\<in>set msg. c \<le> 255) \<longrightarrow>
      to_binary msg = concat (map (be_bits 8) msg) \<and> length (to_binary msg) = 8 * length msg) \<and>
   ((\<exists>c\<in>set msg. 256 \<le> c) \<longrightarrow>
      8 * length msg < length (to_binary msg) \<and>
      (\<forall>bytes. length bytes = length msg \<and> (\<forall>b\<in>set bytes. b \<le> 255) \<longrightarrow>
         to_binary bytes \<noteq> to_binary msg)) \<and>
   (\<forall>c. 256 \<le> c \<longrightarrow> 8 < length (to_binary [c]))"
proof (intro conjI impI allI)
  assume "\<forall>c\<in>set msg. c \<le> 255"
  then show "to_binary msg = concat (map (be_bits 8) msg)" by (rule to_binary_bytes)
next
  assume "\<forall>c\<in>set msg. c \<le> 255"
  then show "length (to_binary msg) = 8 * length msg" by (rule length_to_binary_bytes)
next
  assume "\<exists>c\<in>set msg. 256 \<le> c"
  then show "8 * length msg < length (to_binary msg)" by (rule length_to_binary_wide)
next
  fix bytes :: pystr
  assume w: "\<exists>c\<in>set msg. 256 \<le> c" and b: "length bytes = length msg \<and> (\<forall>b\<in>set bytes. b \<le> 255)"
  from w have "8 * length msg < length (to_binary msg)" by (rule length_to_binary_wide)
  moreover from b have "length (to_binary bytes) = 8 * length msg"
    by (simp add: length_to_binary_bytes)
  ultimately show "to_binary bytes \<noteq> to_binary msg" by auto
next
  fix c :: nat
  assume "256 \<le> c"
  then have "\<exists>x\<in>set [c]. 256 \<le> x" by simp
  then have "8 * length [c] < length (to_binary [c])" by (rule length_to_binary_wide)
  then show "8 < length (to_binary [c])" by simp
qed

text \<open>The statement at the messages \<open>abc\<close> and the single code point 256.\<close>

theorem to_binary_code_points_witness:
  "to_binary [97, 98, 99] = concat (map (be_bits 8) [97, 98, 99]) \<and>
   length (to_binary [97, 98, 99]) = 8 * length [97, 98, 99::nat] \<and>
   8 * length [256::nat] < length (to_binary [256]) \<and>
   to_binary [255] \<noteq> to_binary [256]"
proof -
  have a: "\<forall>c\<in>set [97, 98, 99::nat]. c \<le> 255" by simp
  have b: "\<exists>c\<in>set [256::nat]. 256 \<le> c" by simp
  have c: "length [255::nat] = length [256::nat] \<and> (\<forall>b\<in>set [255::nat]. b \<le> 255)" by simp
  from a to_binary_code_points [of "[97, 98, 99]"]
  have "to_binary [97, 98, 99] = concat (map (be_bits 8) [97, 98, 99]) \<and>
        length (to_binary [97, 98, 99]) = 8 * length [97, 98, 99::nat]" by blast
  moreover from b to_binary_code_points [of "[256]"]
  have "8 * length [256::nat] < length (to_binary [256]) \<and>
      (\<forall>bytes. length bytes = length [256::nat] \<and> (\<forall>b\<in>set bytes. b \<le> 255) \<longrightarrow>
         to_binary bytes \<noteq> to_binary [256])" by blast
  ultimately show ?thesis using c by blast
qed

section \<open>32-bit arithmetic on Python integers\<close>

lemma mask32_eq: "mask32 = mask 32"
  by (simp add: mask32_def mask_eq_exp_minus_1)

lemma and_mask32: "x AND mask32 = take_bit 32 x"
  by (simp add: mask32_eq take_bit_eq_mask)

lemma in32_take_bit: "in32 (take_bit 32 x)"
  using take_bit_int_less_exp [of 32 x] by (simp add: in32_def)

lemma in32_and_mask32: "in32 (x AND mask32)"
  by (simp add: and_mask32 in32_take_bit)

lemma take_bit_in32: "in32 x \<Longrightarrow> take_bit 32 x = x"
  by (simp add: in32_def take_bit_int_eq_self)

lemma uint_word_of_int_in32: "in32 x \<Longrightarrow> uint (word_of_int x :: word32) = x"
  by (simp add: uint_word_of_int_eq take_bit_in32)

lemma bit_in32: "in32 x \<Longrightarrow> 32 \<le> m \<Longrightarrow> \<not> bit x m"
proof -
  assume "in32 x" and m: "32 \<le> m"
  then have "take_bit 32 x = x" by (simp add: take_bit_in32)
  then have "bit x m = bit (take_bit 32 x) m" by simp
  also have "\<dots> = False" using m by (simp add: bit_take_bit_iff)
  finally show ?thesis by simp
qed

lemma bit_rot_int:
  "bit (take_bit 32 (drop_bit n x OR push_bit (32 - n) x)) i \<longleftrightarrow>
     i < 32 \<and> (bit x (n + i) \<or> (32 - n \<le> i \<and> bit x (i - (32 - n))))" for x :: int
  by (auto simp add: bit_take_bit_iff bit_or_iff bit_drop_bit_eq bit_push_bit_iff)

lemma bit_rot_word:
  "bit (uint (rotr n (word_of_int x))) i \<longleftrightarrow> i < 32 \<and> bit x ((i + n) mod 32)"
  by (simp add: rotr_def bit_uint_iff bit_word_rotr_iff bit_word_of_int_iff)

lemma bit_shr_word:
  "bit (uint (shr n (word_of_int x))) i \<longleftrightarrow> n + i < 32 \<and> bit x (n + i)"
  by (auto simp add: shr_def bit_uint_iff bit_drop_bit_eq bit_word_of_int_iff)

lemma rot_bits:
  assumes x: "in32 x" and n: "0 < n" "n < 32"
  shows "take_bit 32 (drop_bit n x OR push_bit (32 - n) x) = uint (rotr n (word_of_int x))"
proof (rule bit_eqI)
  fix i
  have hi: "\<And>m. 32 \<le> m \<Longrightarrow> \<not> bit x m" by (rule bit_in32 [OF x])
  show "bit (take_bit 32 (drop_bit n x OR push_bit (32 - n) x)) i =
        bit (uint (rotr n (word_of_int x))) i"
  proof (cases "i < 32")
    case False
    then show ?thesis by (simp only: bit_rot_int bit_rot_word) simp
  next
    case i: True
    show ?thesis
    proof (cases "i + n < 32")
      case True
      then have "(i + n) mod 32 = n + i" "\<not> 32 - n \<le> i" by simp_all
      then show ?thesis by (simp only: bit_rot_int bit_rot_word) simp
    next
      case False
      then have "(i + n) mod 32 = i + n - 32" using n i by (simp add: mod_if)
      moreover have "i - (32 - n) = i + n - 32" "32 - n \<le> i" using n False by simp_all
      moreover have "\<not> bit x (n + i)" using False by (intro hi) simp
      ultimately show ?thesis by (simp only: bit_rot_int bit_rot_word) simp
    qed
  qed
qed

lemma rightrotate_rotr:
  "in32 x \<Longrightarrow> 0 < n \<Longrightarrow> n < 32 \<Longrightarrow> rightrotate x n = uint (rotr n (word_of_int x))"
  by (simp only: rightrotate_def and_mask32 rot_bits)

lemma shr_bits:
  assumes x: "in32 x"
  shows "take_bit 32 (drop_bit n x) = uint (shr n (word_of_int x))"
proof (rule bit_eqI)
  fix i
  have hi: "\<And>m. 32 \<le> m \<Longrightarrow> \<not> bit x m" by (rule bit_in32 [OF x])
  have "bit (take_bit 32 (drop_bit n x)) i \<longleftrightarrow> i < 32 \<and> bit x (n + i)"
    by (simp add: bit_take_bit_iff bit_drop_bit_eq)
  also have "\<dots> \<longleftrightarrow> n + i < 32 \<and> bit x (n + i)"
    using hi [of "n + i"] by (cases "n + i < 32") simp_all
  finally show "bit (take_bit 32 (drop_bit n x)) i = bit (uint (shr n (word_of_int x))) i"
    by (simp only: bit_shr_word)
qed

lemma ch_word: "word_of_int (ch e f g) = Ch (word_of_int e) (word_of_int f) (word_of_int g)"
  by (simp add: ch_def Ch_def of_int_and_eq of_int_xor_eq of_int_not_eq)

lemma in32_ch: "in32 e \<Longrightarrow> in32 f \<Longrightarrow> in32 g \<Longrightarrow> in32 (ch e f g)"
proof -
  assume e: "in32 e" and f: "in32 f" and g: "in32 g"
  have a: "0 \<le> e AND f" "e AND f < 2 ^ 32" using e f by (auto simp: in32_def intro: AND_upper1' [THEN le_less_trans])
  have b: "0 \<le> NOT e AND g" using g by (simp add: in32_def)
  have "NOT e AND g \<le> g" using g by (simp add: in32_def AND_upper2)
  with g have c: "NOT e AND g < 2 ^ 32" by (simp add: in32_def)
  from a b c have "(e AND f) XOR (NOT e AND g) < 2 ^ 32" by (intro XOR_upper)
  with a b show ?thesis by (simp add: in32_def ch_def)
qed

text \<open>
  Claim C9. For 32-bit values \<open>e\<close>, \<open>f\<close>, \<open>g\<close>, the expression \<open>(e & f) ^ (~e & g)\<close> on
  Python's unbounded integers, where \<open>~e\<close> is negative, is non-negative and below \<open>2^32\<close>,
  and equals the choose function of FIPS 180-4 on 32-bit words, that is with the 32-bit
  complement \<open>2^32 - 1 - e\<close> in place of \<open>~e\<close>.
\<close>

theorem ch_is_32bit_choose:
  assumes "0 \<le> e \<and> e < 2 ^ 32" and "0 \<le> f \<and> f < 2 ^ 32" and "0 \<le> g \<and> g < 2 ^ 32"
  shows "NOT e < 0 \<and> 0 \<le> ch e f g \<and> ch e f g < 2 ^ 32 \<and>
         ch e f g = uint (Ch (word_of_int e) (word_of_int f) (word_of_int g)) \<and>
         ch e f g = (e AND f) XOR ((2 ^ 32 - 1 - e) AND g)"
proof -
  have e: "in32 e" and f: "in32 f" and g: "in32 g" using assms by (simp_all add: in32_def)
  have r: "in32 (ch e f g)" using e f g by (rule in32_ch)
  have w: "ch e f g = uint (Ch (word_of_int e) (word_of_int f) (word_of_int g))"
    using uint_word_of_int_in32 [OF r] by (simp only: ch_word)
  have "NOT e AND g = (2 ^ 32 - 1 - e) AND g"
  proof (rule bit_eqI)
    fix i
    have "2 ^ 32 - 1 - e = take_bit 32 (NOT e)"
      using e by (simp add: take_bit_not_eq_mask_diff mask_eq_exp_minus_1 take_bit_in32)
    then show "bit (NOT e AND g) i = bit ((2 ^ 32 - 1 - e) AND g) i"
      using bit_in32 [OF g, of i] by (cases "i < 32") (auto simp add: bit_simps)
  qed
  then have c: "ch e f g = (e AND f) XOR ((2 ^ 32 - 1 - e) AND g)" by (simp add: ch_def)
  from assms(1) have "NOT e < 0" by simp
  with r w c show ?thesis by (simp add: in32_def)
qed

text \<open>The statement at the values of \<open>e\<close>, \<open>f\<close>, \<open>g\<close> in the first round of any message.\<close>

theorem ch_is_32bit_choose_witness:
  "ch 0x510e527f 0x9b05688c 0x1f83d9ab = 0x1f85c98c \<and>
   uint (Ch 0x510e527f 0x9b05688c 0x1f83d9ab) = 0x1f85c98c"
proof -
  have "(0::int) \<le> 0x510e527f \<and> (0x510e527f::int) < 2 ^ 32"
       "(0::int) \<le> 0x9b05688c \<and> (0x9b05688c::int) < 2 ^ 32"
       "(0::int) \<le> 0x1f83d9ab \<and> (0x1f83d9ab::int) < 2 ^ 32" by simp_all
  from ch_is_32bit_choose [OF this] show ?thesis by (simp add: ch_def)
qed

section \<open>The message schedule\<close>

lemma be_value_Nil [simp]: "be_value [] = 0"
  by (simp add: be_value_def)

lemma be_value_Cons:
  "be_value (c # cs) = (if c = CHR ''1'' then 1 else 0) * 2 ^ length cs + be_value cs"
  by (simp add: be_value_def sum.lessThan_Suc_shift del: sum.lessThan_Suc)

lemma be_value_bounds: "0 \<le> be_value s \<and> be_value s < 2 ^ length s"
proof (induction s)
  case Nil
  then show ?case by simp
next
  case (Cons c cs)
  then show ?case by (simp add: be_value_Cons)
qed

lemma bit_string_Cons: "bit_string (c # cs) \<longleftrightarrow> (c = CHR ''0'' \<or> c = CHR ''1'') \<and> bit_string cs"
  by (auto simp: bit_string_def)

lemma bit_string_append: "bit_string (xs @ ys) \<longleftrightarrow> bit_string xs \<and> bit_string ys"
  by (auto simp: bit_string_def)

lemma bit_string_take_drop: "bit_string s \<Longrightarrow> bit_string (take n (drop m s))"
  unfolding bit_string_def using set_take_subset [of n "drop m s"] set_drop_subset [of m s]
  by blast

lemma bin_value_be: "bit_string s \<Longrightarrow> bin_value acc s = Inr (acc * 2 ^ length s + be_value s)"
proof (induction s arbitrary: acc)
  case Nil
  then show ?case by simp
next
  case (Cons c cs)
  then have cs: "bit_string cs" and c: "c = CHR ''0'' \<or> c = CHR ''1''"
    by (simp_all add: bit_string_Cons)
  from c show ?case
  proof
    assume "c = CHR ''0''"
    then show ?thesis using Cons.IH [OF cs, of "2 * acc"] by (simp add: be_value_Cons)
  next
    assume "c = CHR ''1''"
    then show ?thesis using Cons.IH [OF cs, of "2 * acc + 1"]
      by (simp add: be_value_Cons algebra_simps)
  qed
qed

lemma int_base2_be: "bit_string s \<Longrightarrow> s \<noteq> [] \<Longrightarrow> int_base2 s = Inr (be_value s)"
  by (simp add: int_base2_def bin_value_be)

lemma collect_Inr: "(\<And>x. x \<in> set xs \<Longrightarrow> f x = Inr (g x)) \<Longrightarrow> collect (map f xs) = Inr (map g xs)"
  by (induction xs) simp_all

lemma extend_words_props:
  "length ws \<le> 64 \<Longrightarrow>
   length (extend_words ws) = 64 \<and> take (length ws) (extend_words ws) = ws \<and>
   (\<forall>i. length ws \<le> i \<and> i < 64 \<longrightarrow> extend_words ws ! i = next_word (take i (extend_words ws)))"
proof (induction ws rule: extend_words.induct)
  case (1 ws)
  show ?case
  proof (cases "length ws < 64")
    case False
    with "1.prems" show ?thesis by (simp add: extend_words.simps [of ws])
  next
    case True
    let ?W = "extend_words (ws @ [next_word ws])"
    have e: "extend_words ws = ?W" using True by (simp add: extend_words.simps [of ws])
    from True have "length (ws @ [next_word ws]) \<le> 64" by simp
    with "1.IH" [OF True] have len: "length ?W = 64"
      and tk: "take (length (ws @ [next_word ws])) ?W = ws @ [next_word ws]"
      and rest: "\<forall>i. length (ws @ [next_word ws]) \<le> i \<and> i < 64 \<longrightarrow> ?W ! i = next_word (take i ?W)"
      by blast+
    have "take (length ws) (take (length (ws @ [next_word ws])) ?W) = take (length ws) (ws @ [next_word ws])"
      by (simp only: tk)
    then have tk': "take (length ws) ?W = ws" by (simp add: min_def)
    have "?W ! length ws = (take (length (ws @ [next_word ws])) ?W) ! length ws"
      by simp
    also have "\<dots> = next_word ws" by (simp only: tk) simp
    finally have here: "?W ! length ws = next_word (take (length ws) ?W)" by (simp only: tk')
    have "\<forall>i. length ws \<le> i \<and> i < 64 \<longrightarrow> ?W ! i = next_word (take i ?W)"
    proof (intro allI impI)
      fix i assume i: "length ws \<le> i \<and> i < 64"
      show "?W ! i = next_word (take i ?W)"
      proof (cases "i = length ws")
        case True
        with here show ?thesis by simp
      next
        case False
        with i have "length (ws @ [next_word ws]) \<le> i \<and> i < 64" by simp
        with rest show ?thesis by blast
      qed
    qed
    with len tk' show ?thesis by (simp only: e)
  qed
qed

lemma word_of_int_take_bit32: "(word_of_int (take_bit 32 x) :: word32) = word_of_int x"
  by (simp add: word_of_int_eq_iff)

lemma word_of_int_mask32: "(word_of_int (x AND mask32) :: word32) = word_of_int x"
  by (simp only: and_mask32 word_of_int_take_bit32)

lemma sched_s0_word:
  assumes "in32 (ws ! (length ws - 15))"
  shows "(word_of_int (sched_s0 ws) :: word32) = ssig0 (word_of_int (ws ! (length ws - 15)))"
proof -
  let ?x = "ws ! (length ws - 15)"
  have "take_bit 32 (sched_s0 ws) =
     (take_bit 32 (drop_bit 7 ?x OR push_bit (32 - 7) ?x) XOR
      take_bit 32 (drop_bit 18 ?x OR push_bit (32 - 18) ?x)) XOR take_bit 32 (drop_bit 3 ?x)"
    by (simp only: sched_s0_def Let_def take_bit_xor)
  also have "\<dots> = uint (ssig0 (word_of_int ?x))"
    using assms by (simp only: rot_bits shr_bits ssig0_def uint_xor)
  finally have "take_bit 32 (sched_s0 ws) = uint (ssig0 (word_of_int ?x))" .
  then have "(word_of_int (take_bit 32 (sched_s0 ws)) :: word32) = ssig0 (word_of_int ?x)"
    by simp
  then show ?thesis by (simp only: word_of_int_take_bit32)
qed

lemma sched_s1_word:
  assumes "in32 (ws ! (length ws - 2))"
  shows "(word_of_int (sched_s1 ws) :: word32) = ssig1 (word_of_int (ws ! (length ws - 2)))"
proof -
  let ?x = "ws ! (length ws - 2)"
  have "take_bit 32 (sched_s1 ws) =
     (take_bit 32 (drop_bit 17 ?x OR push_bit (32 - 17) ?x) XOR
      take_bit 32 (drop_bit 19 ?x OR push_bit (32 - 19) ?x)) XOR take_bit 32 (drop_bit 10 ?x)"
    by (simp only: sched_s1_def Let_def take_bit_xor)
  also have "\<dots> = uint (ssig1 (word_of_int ?x))"
    using assms by (simp only: rot_bits shr_bits ssig1_def uint_xor)
  finally have "take_bit 32 (sched_s1 ws) = uint (ssig1 (word_of_int ?x))" .
  then have "(word_of_int (take_bit 32 (sched_s1 ws)) :: word32) = ssig1 (word_of_int ?x)"
    by simp
  then show ?thesis by (simp only: word_of_int_take_bit32)
qed

lemma next_word_word:
  assumes "in32 (ws ! (length ws - 15))" and "in32 (ws ! (length ws - 2))"
  shows "next_word ws =
     uint (word_of_int (ws ! (length ws - 16)) + ssig0 (word_of_int (ws ! (length ws - 15))) +
           word_of_int (ws ! (length ws - 7)) + ssig1 (word_of_int (ws ! (length ws - 2))) :: word32)"
proof -
  have "in32 (next_word ws)" by (simp only: next_word_def in32_and_mask32)
  then have "next_word ws = uint (word_of_int (next_word ws) :: word32)"
    by (simp only: uint_word_of_int_in32)
  also have "(word_of_int (next_word ws) :: word32) =
      word_of_int (ws ! (length ws - 16)) + word_of_int (sched_s0 ws) +
      word_of_int (ws ! (length ws - 7)) + word_of_int (sched_s1 ws)"
    by (simp only: next_word_def word_of_int_mask32 of_int_add)
  finally show ?thesis using assms by (simp only: sched_s0_word sched_s1_word)
qed

lemma uint_sum4:
  "uint (word_of_int a + x + word_of_int b + y :: word32) = (a + uint x + b + uint y) mod 2 ^ 32"
proof -
  have "(word_of_int a + x + word_of_int b + y :: word32) = word_of_int (a + uint x + b + uint y)"
    by simp
  then show ?thesis by (simp only: uint_word_of_int_eq take_bit_eq_mod) simp
qed

lemma create_words_valid:
  assumes len: "length chunk = 512" and bs: "bit_string chunk"
  shows "create_words chunk = Inr (extend_words (first_words chunk))"
proof -
  have "\<And>k. k \<in> set [0 ..< 16] \<Longrightarrow>
          int_base2 (take 32 (drop (32 * k) chunk)) = Inr (be_value (take 32 (drop (32 * k) chunk)))"
  proof -
    fix k :: nat assume "k \<in> set [0 ..< 16]"
    then have "k < 16" by simp
    with len have "length (take 32 (drop (32 * k) chunk)) = 32" by simp
    then have "take 32 (drop (32 * k) chunk) \<noteq> []" by auto
    moreover from bs have "bit_string (take 32 (drop (32 * k) chunk))"
      by (rule bit_string_take_drop)
    ultimately show "int_base2 (take 32 (drop (32 * k) chunk)) = Inr (be_value (take 32 (drop (32 * k) chunk)))"
      by (intro int_base2_be)
  qed
  then have "collect (map (\<lambda>k. int_base2 (take 32 (drop (32 * k) chunk))) [0 ..< 16]) =
             Inr (map (\<lambda>k. be_value (take 32 (drop (32 * k) chunk))) [0 ..< 16])"
    by (rule collect_Inr)
  then show ?thesis by (simp add: create_words_def first_words_def)
qed

lemma first_words_props:
  assumes len: "length chunk = 512"
  shows "length (first_words chunk) = 16"
    and "j < 16 \<Longrightarrow> first_words chunk ! j = be_value (take 32 (drop (32 * j) chunk))"
    and "j < 16 \<Longrightarrow> in32 (first_words chunk ! j)"
proof -
  show "length (first_words chunk) = 16" by (simp add: first_words_def)
  show v: "j < 16 \<Longrightarrow> first_words chunk ! j = be_value (take 32 (drop (32 * j) chunk))"
    by (simp add: first_words_def)
  show "j < 16 \<Longrightarrow> in32 (first_words chunk ! j)"
  proof -
    assume j: "j < 16"
    with len have "length (take 32 (drop (32 * j) chunk)) = 32" by simp
    with be_value_bounds [of "take 32 (drop (32 * j) chunk)"] v [OF j]
    show ?thesis by (simp add: in32_def)
  qed
qed

lemma schedule_props:
  assumes len: "length chunk = 512"
  defines "W \<equiv> extend_words (first_words chunk)"
  shows "length W = 64"
    and "j < 16 \<Longrightarrow> W ! j = be_value (take 32 (drop (32 * j) chunk))"
    and "i < 64 \<Longrightarrow> in32 (W ! i)"
    and "16 \<le> i \<Longrightarrow> i < 64 \<Longrightarrow> W ! i = next_word (take i W)"
proof -
  have l16: "length (first_words chunk) = 16" using len by (rule first_words_props)
  then have "length (first_words chunk) \<le> 64" by simp
  from extend_words_props [OF this]
  have L: "length W = 64" and T: "take 16 W = first_words chunk"
    and N: "\<And>i. 16 \<le> i \<Longrightarrow> i < 64 \<Longrightarrow> W ! i = next_word (take i W)"
    unfolding W_def l16 by blast+
  show "length W = 64" by (rule L)
  have F: "\<And>j. j < 16 \<Longrightarrow> W ! j = first_words chunk ! j"
  proof -
    fix j :: nat assume "j < 16"
    then have "W ! j = take 16 W ! j" by simp
    then show "W ! j = first_words chunk ! j" by (simp only: T)
  qed
  show "j < 16 \<Longrightarrow> W ! j = be_value (take 32 (drop (32 * j) chunk))"
    using F [of j] first_words_props(2) [OF len, of j] by simp
  show "16 \<le> i \<Longrightarrow> i < 64 \<Longrightarrow> W ! i = next_word (take i W)" by (rule N)
  show "i < 64 \<Longrightarrow> in32 (W ! i)"
  proof (cases "i < 16")
    case True
    then show ?thesis using F [of i] first_words_props(3) [OF len, of i] by simp
  next
    case False
    assume "i < 64"
    with False have "W ! i = next_word (take i W)" by (intro N) simp_all
    then show ?thesis by (simp only: next_word_def in32_and_mask32)
  qed
qed

lemma schedule_step:
  assumes len: "length chunk = 512" and i: "16 \<le> i" "i < 64"
  defines "W \<equiv> extend_words (first_words chunk)"
  shows "W ! i = (W ! (i - 16) + uint (ssig0 (word_of_int (W ! (i - 15)))) +
                  W ! (i - 7) + uint (ssig1 (word_of_int (W ! (i - 2))))) mod 2 ^ 32"
proof -
  have L: "length W = 64" unfolding W_def using len by (rule schedule_props)
  have R: "\<And>m. m < 64 \<Longrightarrow> in32 (W ! m)" unfolding W_def using len by (rule schedule_props)
  have N: "W ! i = next_word (take i W)" unfolding W_def using len i by (rule schedule_props)
  let ?T = "take i W"
  have lt: "length ?T = i" using L i by simp
  have nth: "\<And>k. 0 < k \<Longrightarrow> k \<le> i \<Longrightarrow> ?T ! (i - k) = W ! (i - k)" by simp
  have a: "?T ! (length ?T - 16) = W ! (i - 16)" "?T ! (length ?T - 15) = W ! (i - 15)"
          "?T ! (length ?T - 7) = W ! (i - 7)" "?T ! (length ?T - 2) = W ! (i - 2)"
    unfolding lt using i by (simp_all only: nth)
  have "in32 (W ! (i - 15))" "in32 (W ! (i - 2))" using i by (simp_all add: R)
  then have "in32 (?T ! (length ?T - 15))" "in32 (?T ! (length ?T - 2))" by (simp_all only: a)
  then have "next_word ?T =
     uint (word_of_int (?T ! (length ?T - 16)) + ssig0 (word_of_int (?T ! (length ?T - 15))) +
           word_of_int (?T ! (length ?T - 7)) + ssig1 (word_of_int (?T ! (length ?T - 2))) :: word32)"
    by (rule next_word_word)
  then show ?thesis by (simp only: N a uint_sum4)
qed

text \<open>
  Claim C3. For every block of 512 bits, \<open>create_words\<close> returns 64 words \<open>W\<close>: the first
  sixteen are the block's 32-bit slices in order, each read as an unsigned big-endian
  number, and for \<open>i\<close> from 16 to 63,
  \<open>W[i] = (W[i-16] + s0 + W[i-7] + s1) mod 2^32\<close> with
  \<open>s0 = rotr 7 x XOR rotr 18 x XOR shr 3 x\<close> at \<open>x = W[i-15]\<close> and
  \<open>s1 = rotr 17 y XOR rotr 19 y XOR shr 10 y\<close> at \<open>y = W[i-2]\<close>, where \<open>rotr\<close> rotates a
  32-bit word to the right and \<open>shr\<close> shifts it to the right filling with zeros.
\<close>

theorem create_words_schedule:
  assumes "length chunk = 512" and "bit_string chunk"
  shows "\<exists>W. create_words chunk = Inr W \<and> length W = 64 \<and>
     (\<forall>j<16. W ! j = be_value (take 32 (drop (32 * j) chunk)) \<and> 0 \<le> W ! j \<and> W ! j < 2 ^ 32) \<and>
     (\<forall>i. 16 \<le> i \<and> i < 64 \<longrightarrow>
        W ! i = (W ! (i - 16) + uint (ssig0 (word_of_int (W ! (i - 15)))) +
                 W ! (i - 7) + uint (ssig1 (word_of_int (W ! (i - 2))))) mod 2 ^ 32)"
proof (intro exI conjI allI impI)
  show "create_words chunk = Inr (extend_words (first_words chunk))"
    using assms by (rule create_words_valid)
  show "length (extend_words (first_words chunk)) = 64"
    using assms(1) by (rule schedule_props)
next
  fix j :: nat assume j: "j < 16"
  then show "extend_words (first_words chunk) ! j = be_value (take 32 (drop (32 * j) chunk))"
    using assms(1) by (simp add: schedule_props)
  from j have "in32 (extend_words (first_words chunk) ! j)"
    using schedule_props(3) [OF assms(1), of j] by simp
  then show "0 \<le> extend_words (first_words chunk) ! j" "extend_words (first_words chunk) ! j < 2 ^ 32"
    by (simp_all add: in32_def)
next
  fix i :: nat assume "16 \<le> i \<and> i < 64"
  then show "extend_words (first_words chunk) ! i =
      (extend_words (first_words chunk) ! (i - 16) +
       uint (ssig0 (word_of_int (extend_words (first_words chunk) ! (i - 15)))) +
       extend_words (first_words chunk) ! (i - 7) +
       uint (ssig1 (word_of_int (extend_words (first_words chunk) ! (i - 2))))) mod 2 ^ 32"
    using assms(1) by (simp only: schedule_step)
qed

text \<open>
  Claim C7. For every block of 512 bits, every word of the schedule that \<open>create_words\<close>
  returns is a non-negative integer below \<open>2^32\<close>.
\<close>

theorem schedule_words_32bit:
  assumes "length chunk = 512" and "bit_string chunk"
  shows "\<exists>W. create_words chunk = Inr W \<and> length W = 64 \<and> (\<forall>w\<in>set W. 0 \<le> w \<and> w < 2 ^ 32)"
proof -
  let ?W = "extend_words (first_words chunk)"
  have c: "create_words chunk = Inr ?W" using assms by (rule create_words_valid)
  have l: "length ?W = 64" using assms(1) by (rule schedule_props)
  have "\<forall>w\<in>set ?W. 0 \<le> w \<and> w < 2 ^ 32"
  proof
    fix w assume "w \<in> set ?W"
    then obtain i where "i < length ?W" "w = ?W ! i" by (auto simp: in_set_conv_nth)
    with l have "in32 w" using schedule_props(3) [OF assms(1), of i] by simp
    then show "0 \<le> w \<and> w < 2 ^ 32" by (simp add: in32_def)
  qed
  with c l show ?thesis by blast
qed

lemma bit_string_replicate: "c = CHR ''0'' \<or> c = CHR ''1'' \<Longrightarrow> bit_string (replicate n c)"
  by (auto simp: bit_string_def)

text \<open>The statement at the block of 512 one bits, for the words 0 and 16.\<close>

theorem create_words_schedule_witness:
  "\<exists>W. create_words (replicate 512 (CHR ''1'')) = Inr W \<and> length W = 64 \<and>
       W ! 0 = be_value (take 32 (drop (32 * 0) (replicate 512 (CHR ''1'')))) \<and>
       W ! 16 = (W ! (16 - 16) + uint (ssig0 (word_of_int (W ! (16 - 15)))) +
                 W ! (16 - 7) + uint (ssig1 (word_of_int (W ! (16 - 2))))) mod 2 ^ 32"
proof -
  have "length (replicate 512 (CHR ''1'')) = 512" by simp
  moreover have "bit_string (replicate 512 (CHR ''1''))" by (simp add: bit_string_replicate)
  ultimately obtain W where W: "create_words (replicate 512 (CHR ''1'')) = Inr W" "length W = 64"
     "\<forall>j<16. W ! j = be_value (take 32 (drop (32 * j) (replicate 512 (CHR ''1'')))) \<and> 0 \<le> W ! j \<and> W ! j < 2 ^ 32"
     "\<forall>i. 16 \<le> i \<and> i < 64 \<longrightarrow>
        W ! i = (W ! (i - 16) + uint (ssig0 (word_of_int (W ! (i - 15)))) +
                 W ! (i - 7) + uint (ssig1 (word_of_int (W ! (i - 2))))) mod 2 ^ 32"
    using create_words_schedule [of "replicate 512 (CHR ''1'')"] by blast
  from W(3) have "W ! 0 = be_value (take 32 (drop (32 * 0) (replicate 512 (CHR ''1''))))"
    by (elim allE [of _ 0]) simp
  moreover from W(4) have "W ! 16 = (W ! (16 - 16) + uint (ssig0 (word_of_int (W ! (16 - 15)))) +
                 W ! (16 - 7) + uint (ssig1 (word_of_int (W ! (16 - 2))))) mod 2 ^ 32"
    by (elim allE [of _ 16]) simp
  ultimately show ?thesis using W(1,2) by blast
qed

text \<open>The statement at the block of 512 one bits, for the last word.\<close>

theorem schedule_words_32bit_witness:
  "\<exists>W. create_words (replicate 512 (CHR ''1'')) = Inr W \<and> length W = 64 \<and>
       0 \<le> W ! 63 \<and> W ! 63 < 2 ^ 32"
proof -
  have "length (replicate 512 (CHR ''1'')) = 512" by simp
  moreover have "bit_string (replicate 512 (CHR ''1''))" by (simp add: bit_string_replicate)
  ultimately obtain W where W: "create_words (replicate 512 (CHR ''1'')) = Inr W" "length W = 64"
     "\<forall>w\<in>set W. 0 \<le> w \<and> w < 2 ^ 32"
    using schedule_words_32bit [of "replicate 512 (CHR ''1'')"] by blast
  from W(2) have "W ! 63 \<in> set W" by simp
  with W(3) have "0 \<le> W ! 63 \<and> W ! 63 < 2 ^ 32" by blast
  with W(1,2) show ?thesis by blast
qed

section \<open>The compressor\<close>

lemma S1_word: "in32 e \<Longrightarrow> word_of_int (S1 e) = bsig1 (word_of_int e)"
  by (simp add: S1_def bsig1_def rightrotate_rotr of_int_xor_eq)

lemma S0_word: "in32 a \<Longrightarrow> word_of_int (S0 a) = bsig0 (word_of_int a)"
  by (simp add: S0_def bsig0_def rightrotate_rotr of_int_xor_eq)

lemma maj_word: "word_of_int (maj a b c) = Maj (word_of_int a) (word_of_int b) (word_of_int c)"
  by (simp add: maj_def Maj_def of_int_and_eq of_int_xor_eq)

lemma round_word:
  assumes v: "in32v v" and i: "i < length w"
  shows "wregs (round_body w v i) = spec_round (map word_of_int w) (wregs v) i"
proof -
  have e: "in32 (ve v)" and a: "in32 (va v)" using v by (simp_all add: in32v_def)
  show ?thesis
    using i
    by (simp add: round_body_def wregs_def Let_def word_of_int_mask32 S1_word [OF e] S0_word [OF a]
        ch_word maj_word)
qed

lemma round_in32v: "in32v v \<Longrightarrow> in32v (round_body w v i)"
  by (simp add: round_body_def in32v_def Let_def in32_and_mask32)

lemma foldl_round_word:
  "in32v v \<Longrightarrow> \<forall>i\<in>set is. i < length w \<Longrightarrow>
   in32v (foldl (round_body w) v is) \<and>
   wregs (foldl (round_body w) v is) = foldl (spec_round (map word_of_int w)) (wregs v) is"
proof (induction "is" arbitrary: v)
  case Nil
  then show ?case by simp
next
  case (Cons i "is")
  from Cons.prems have i: "i < length w" and r: "\<forall>i\<in>set is. i < length w" by simp_all
  have "in32v (round_body w v i)" using Cons.prems(1) by (rule round_in32v)
  from Cons.IH [OF this r] round_word [OF Cons.prems(1) i] show ?case by simp
qed

lemma rounds_word:
  assumes "in32v v" and "length w = 64"
  shows "in32v (rounds w v)"
    and "wregs (rounds w v) = foldl (spec_round (map word_of_int w)) (wregs v) [0 ..< 64]"
proof -
  have "\<forall>i\<in>set [0 ..< 64]. i < length w" using assms(2) by simp
  from foldl_round_word [OF assms(1) this]
  show "in32v (rounds w v)"
    and "wregs (rounds w v) = foldl (spec_round (map word_of_int w)) (wregs v) [0 ..< 64]"
    by (simp_all add: rounds_def)
qed

lemma list8:
  assumes "length H = 8"
  obtains a b c d e f g h where "H = [a, b, c, d, e, f, g, h]"
proof -
  from assms have "length H = Suc (Suc (Suc (Suc (Suc (Suc (Suc (Suc 0)))))))" by simp
  then show ?thesis using that by (auto simp: length_Suc_conv)
qed

lemma uint_add_mask32: "uint (word_of_int x + word_of_int y :: word32) = (x + y) AND mask32"
proof -
  have "(word_of_int x + word_of_int y :: word32) = word_of_int (x + y)" by simp
  then show ?thesis by (simp only: uint_word_of_int_eq and_mask32) simp
qed

lemma compress_word:
  assumes len: "length H = 8" and H: "\<forall>x\<in>set H. in32 x" and w: "length w = 64"
  shows "compress H w = Inr (map uint (spec_compress (map word_of_int H) (map word_of_int w)))"
proof -
  from len obtain a b c d e f g h where Heq: "H = [a, b, c, d, e, f, g, h]" by (rule list8)
  let ?v = "\<lparr>va = a, vb = b, vc = c, vd = d, ve = e, vf = f, vg = g, vh = h\<rparr>"
  have "in32v ?v" using H by (simp add: Heq in32v_def)
  from rounds_word(2) [OF this w]
  have r: "foldl (spec_round (map word_of_int w)) (wregs ?v) [0 ..< 64] = wregs (rounds w ?v)"
    by simp
  have "spec_compress (map word_of_int H) (map word_of_int w) =
     (case wregs (rounds w ?v) of
        (a', b', c', d', e', f', g', h') \<Rightarrow>
          [word_of_int a + a', word_of_int b + b', word_of_int c + c', word_of_int d + d',
           word_of_int e + e', word_of_int f + f', word_of_int g + g', word_of_int h + h'])"
    unfolding spec_compress_def Heq using r by (simp add: wregs_def)
  then show ?thesis
    by (simp add: compress_def Heq Let_def wregs_def uint_add_mask32)
qed

lemma compress_in32:
  assumes "compress H w = Inr H'"
  shows "length H' = 8 \<and> (\<forall>x\<in>set H'. in32 x)"
  using assms
  by (auto simp: compress_def Let_def in32_and_mask32 split: list.splits)

lemma K_eval: "K =
    [1116352408, 1899447441, 3049323471, 3921009573, 961987163, 1508970993,
     2453635748, 2870763221, 3624381080, 310598401, 607225278, 1426881987,
     1925078388, 2162078206, 2614888103, 3248222580, 3835390401, 4022224774,
     264347078, 604807628, 770255983, 1249150122, 1555081692, 1996064986,
     2554220882, 2821834349, 2952996808, 3210313671, 3336571891, 3584528711,
     113926993, 338241895, 666307205, 773529912, 1294757372, 1396182291,
     1695183700, 1986661051, 2177026350, 2456956037, 2730485921, 2820302411,
     3259730800, 3345764771, 3516065817, 3600352804, 4094571909, 275423344,
     430227734, 506948616, 659060556, 883997877, 958139571, 1322822218,
     1537002063, 1747873779, 1955562222, 2024104815, 2227730452, 2361852424,
     2428436474, 2756734187, 3204031479, 3329325298]"
  unfolding K_def by code_simp

lemma H0_eval: "H0 =
    [1779033703, 3144134277, 1013904242, 2773480762,
     1359893119, 2600822924, 528734635, 1541459225]"
  unfolding H0_def by code_simp

lemma H0_props: "length H0 = 8" "\<forall>x\<in>set H0. in32 x"
  by (simp_all add: H0_eval in32_def)

lemma map_uint_word_of_int: "\<forall>x\<in>set H. in32 x \<Longrightarrow> map uint (map word_of_int H :: word32 list) = H"
  by (induction H) (simp_all add: uint_word_of_int_in32)

lemma process_chunk_word:
  assumes len: "length H = 8" and H: "\<forall>x\<in>set H. in32 x"
    and c: "length c = 512" "bit_string c"
  shows "process_chunk H c =
     Inr (map uint (spec_compress (map word_of_int H) (map word_of_int (extend_words (first_words c)))))"
proof -
  have "create_words c = Inr (extend_words (first_words c))" using c by (rule create_words_valid)
  moreover have "length (extend_words (first_words c)) = 64" using c(1) by (rule schedule_props)
  ultimately show ?thesis using compress_word [OF len H] by (simp add: process_chunk_def)
qed

lemma process_chunk_in32:
  assumes "process_chunk H c = Inr H'"
  shows "length H' = 8 \<and> (\<forall>x\<in>set H'. in32 x)"
  using assms compress_in32 by (auto simp: process_chunk_def split: sum.splits)

lemma process_chunks_word:
  assumes "length H = 8" and "\<forall>x\<in>set H. in32 x"
    and "\<forall>c\<in>set chunks. length c = 512 \<and> bit_string c"
  shows "process_chunks H chunks =
     Inr (map uint (foldl spec_compress (map word_of_int H)
            (map (\<lambda>c. map word_of_int (extend_words (first_words c))) chunks)))"
  using assms
proof (induction chunks arbitrary: H)
  case Nil
  from Nil.prems(2) have "map uint (map word_of_int H :: word32 list) = H"
    by (rule map_uint_word_of_int)
  then show ?case by (simp del: map_map)
next
  case (Cons c chunks)
  let ?H' = "map uint (spec_compress (map word_of_int H) (map word_of_int (extend_words (first_words c))))"
  from Cons.prems have c: "length c = 512" "bit_string c"
    and rest: "\<forall>c\<in>set chunks. length c = 512 \<and> bit_string c" by simp_all
  have p: "process_chunk H c = Inr ?H'"
    using Cons.prems(1,2) c by (rule process_chunk_word)
  then have "length ?H' = 8 \<and> (\<forall>x\<in>set ?H'. in32 x)" by (rule process_chunk_in32)
  then have "process_chunks ?H' chunks =
     Inr (map uint (foldl spec_compress (map word_of_int ?H')
            (map (\<lambda>c. map word_of_int (extend_words (first_words c))) chunks)))"
    using rest by (intro Cons.IH) simp_all
  moreover have "map word_of_int ?H' =
      spec_compress (map word_of_int H) (map word_of_int (extend_words (first_words c)))"
    by (simp add: map_idI)
  ultimately show ?case using p by simp
qed

text \<open>
  Claim C4. For a hash state of eight 32-bit words, the loop body of the program for one
  block (\<open>compress\<close>) is the compressor of the specification: the working variables start
  as the hash state, 64 rounds follow, each ending with the shift
  \<open>h := g, g := f, f := e, e := d + temp1, d := c, c := b, b := a, a := temp1 + temp2\<close>
  modulo \<open>2^32\<close>, and then \<open>H[k] := (H[k] + v[k]) mod 2^32\<close> at each of the eight positions.
  Over the blocks of a message it is applied once per block, in order, each block
  starting from the state the previous one left (a left fold over the schedules).
\<close>

theorem compress_blocks_in_order:
  assumes "length H = 8" and "\<forall>x\<in>set H. 0 \<le> x \<and> x < 2 ^ 32"
    and "\<forall>c\<in>set chunks. length c = 512 \<and> bit_string c"
  shows "(\<forall>w. length w = 64 \<longrightarrow>
            compress H w = Inr (map uint (spec_compress (map word_of_int H) (map word_of_int w)))) \<and>
         (\<exists>Ws. list_all2 (\<lambda>c W. create_words c = Inr W) chunks Ws \<and>
               process_chunks H chunks =
                 Inr (map uint (foldl spec_compress (map word_of_int H) (map (map word_of_int) Ws))))"
proof -
  have H: "\<forall>x\<in>set H. in32 x" using assms(2) by (simp add: in32_def)
  let ?Ws = "map (\<lambda>c. extend_words (first_words c)) chunks"
  have "list_all2 (\<lambda>c W. create_words c = Inr W) chunks ?Ws"
    using assms(3) by (simp add: list_all2_conv_all_nth create_words_valid)
  moreover have "process_chunks H chunks =
      Inr (map uint (foldl spec_compress (map word_of_int H) (map (map word_of_int) ?Ws)))"
    using process_chunks_word [OF assms(1) H assms(3)] by (simp add: comp_def)
  ultimately show ?thesis using compress_word [OF assms(1) H] by blast
qed

text \<open>The statement at the initial state and the two blocks of 512 ones and 512 zeros.\<close>

theorem compress_blocks_in_order_witness:
  "\<exists>Ws. list_all2 (\<lambda>c W. create_words c = Inr W)
           [replicate 512 (CHR ''1''), replicate 512 (CHR ''0'')] Ws \<and>
        process_chunks H0 [replicate 512 (CHR ''1''), replicate 512 (CHR ''0'')] =
          Inr (map uint (foldl spec_compress (map word_of_int H0) (map (map word_of_int) Ws)))"
proof -
  have "\<forall>x\<in>set H0. 0 \<le> x \<and> x < 2 ^ 32" using H0_props(2) by (simp add: in32_def)
  moreover have "\<forall>c\<in>set [replicate 512 (CHR ''1''), replicate 512 (CHR ''0'')].
      length c = 512 \<and> bit_string c"
    by (simp add: bit_string_replicate)
  ultimately show ?thesis
    using compress_blocks_in_order [OF H0_props(1), of "[replicate 512 (CHR ''1''), replicate 512 (CHR ''0'')]"]
    by blast
qed

section \<open>The digest\<close>

lemma length_be_hex [simp]: "length (be_hex k v) = k"
  by (simp add: be_hex_def)

lemma digit_char_hex: "d < 16 \<Longrightarrow> digit_char d \<in> set ''0123456789abcdef''"
  unfolding digit_char_def by (rule nth_mem) simp

lemma set_be_hex: "set (be_hex k v) \<subseteq> set ''0123456789abcdef''"
proof
  fix c assume "c \<in> set (be_hex k v)"
  then obtain i where "c = digit_char (nat ((v div 16 ^ (k - 1 - i)) mod 16))"
    by (auto simp: be_hex_def)
  moreover have "nat ((v div 16 ^ (k - 1 - i)) mod 16) < 16" by simp
  ultimately show "c \<in> set ''0123456789abcdef''" by (simp only: digit_char_hex)
qed

lemma be_hex_Suc: "be_hex (Suc k) v = be_hex k (v div 16) @ [digit_char (nat (v mod 16))]"
proof -
  have "\<And>i. i < k \<Longrightarrow> v div 16 ^ (k - i) = v div 16 div 16 ^ (k - 1 - i)"
  proof -
    fix i assume "i < k"
    then have "k - i = Suc (k - 1 - i)" by simp
    then have "v div 16 ^ (k - i) = v div (16 * 16 ^ (k - 1 - i))" by simp
    also have "\<dots> = v div 16 div 16 ^ (k - 1 - i)" by (simp add: zdiv_zmult2_eq)
    finally show "v div 16 ^ (k - i) = v div 16 div 16 ^ (k - 1 - i)" .
  qed
  then show ?thesis by (simp add: be_hex_def)
qed

lemma zfill_hex_Suc:
  assumes "1 \<le> k" and "0 \<le> v"
  shows "zfill (Suc k) (hex_digits v) = zfill k (hex_digits (v div 16)) @ [digit_char (nat (v mod 16))]"
proof (cases "v < 16")
  case True
  with assms(2) have "hex_digits v = [digit_char (nat v)]" "hex_digits (v div 16) = [CHR ''0'']"
      "v mod 16 = v"
    by (simp_all add: hex_digits.simps [of v] hex_digits.simps [of 0] digit_char_def)
  moreover have "replicate k (CHR ''0'') = replicate (k - 1) (CHR ''0'') @ [CHR ''0'']"
    using assms(1) by (cases k) (simp_all add: replicate_append_same)
  ultimately show ?thesis by (simp add: zfill_def)
next
  case False
  then have "hex_digits v = hex_digits (v div 16) @ [digit_char (nat (v mod 16))]"
    by (simp add: hex_digits.simps [of v])
  then show ?thesis by (simp add: zfill_snoc)
qed

lemma zfill_hex_be_hex: "1 \<le> k \<Longrightarrow> 0 \<le> v \<Longrightarrow> v < 16 ^ k \<Longrightarrow> zfill k (hex_digits v) = be_hex k v"
proof (induction k arbitrary: v)
  case 0
  then show ?case by simp
next
  case (Suc k)
  show ?case
  proof (cases "k = 0")
    case True
    with Suc.prems have "v < 16" by simp
    with Suc.prems have "hex_digits v = [digit_char (nat v)]" "v mod 16 = v"
      by (simp_all add: hex_digits.simps [of v])
    then show ?thesis using True by (simp add: zfill_def be_hex_def)
  next
    case False
    then have k: "1 \<le> k" by simp
    from Suc.prems have "0 \<le> v div 16" "v div 16 < 16 ^ k" by simp_all
    with Suc.IH k have "zfill k (hex_digits (v div 16)) = be_hex k (v div 16)" by simp
    then show ?thesis using Suc.prems(2) by (simp add: zfill_hex_Suc [OF k] be_hex_Suc)
  qed
qed

lemma format_x_in32: "in32 v \<Longrightarrow> format_x 8 v = be_hex 8 v"
proof -
  assume "in32 v"
  then have "0 \<le> v" "v < 16 ^ 8" by (simp_all add: in32_def)
  then show ?thesis by (simp add: format_x_def zfill_hex_be_hex)
qed

lemma hex_of_state_in32: "\<forall>x\<in>set H. in32 x \<Longrightarrow> hex_of_state H = concat (map (be_hex 8) H)"
  by (induction H) (simp_all add: hex_of_state_def format_x_in32)

lemma length_concat_be_hex: "length (concat (map (be_hex k) H)) = k * length H"
  by (induction H) simp_all

lemma set_concat_be_hex: "set (concat (map (be_hex k) H)) \<subseteq> set ''0123456789abcdef''"
  using set_be_hex by (induction H) auto

lemma bit_string_bin_digits: "bit_string (bin_digits n)"
proof (induction n rule: bin_digits.induct)
  case (1 n)
  have d: "bit_string [digit_char (n mod 2)]"
    by (simp add: digit_char_bit bit_string_def)
  show ?case
  proof (cases "n < 2")
    case True
    then have "n mod 2 = n" by simp
    with d True show ?thesis by (simp add: bin_digits.simps [of n])
  next
    case False
    with 1 d show ?thesis by (simp add: bin_digits.simps [of n] bit_string_append)
  qed
qed

lemma bit_string_format_b: "bit_string (format_b w n)"
  by (simp add: format_b_def zfill_def bit_string_append bit_string_bin_digits bit_string_replicate)

lemma bit_string_to_binary: "bit_string (to_binary msg)"
proof (induction msg)
  case Nil
  then show ?case by (simp add: to_binary_def bit_string_def)
next
  case (Cons c msg)
  then have "bit_string (concat (map (format_b 8) msg))" by (simp only: to_binary_def)
  with bit_string_format_b [of 8 c] show ?case by (simp add: to_binary_def bit_string_append)
qed

lemma bit_string_pad_message: "bit_string s \<Longrightarrow> bit_string (pad_message s)"
  by (simp add: pad_message_eq bit_string_append bit_string_format_b bit_string_replicate bit_string_Cons)

lemma length_pad_message_dvd: "length s < 2 ^ 64 \<Longrightarrow> 512 dvd length (pad_message s)"
proof -
  assume "length s < 2 ^ 64"
  then have "length (format_b 64 (length s)) = 64" by (rule length_format_b_64)
  then have "length (pad_message s) = length s + 1 + zero_pad (length s) + 64"
    by (simp only: length_pad_message)
  with padded_length_least [of "length s"] show ?thesis by simp
qed

lemma create_chunks_valid:
  assumes d: "512 dvd length p" and b: "bit_string p"
  shows "\<forall>c\<in>set (create_chunks p). length c = 512 \<and> bit_string c"
proof
  fix c assume "c \<in> set (create_chunks p)"
  then obtain k where k: "k < (length p + 511) div 512" and c: "c = take 512 (drop (512 * k) p)"
    by (auto simp: create_chunks_def)
  from d obtain q where q: "length p = 512 * q" by (auto simp: dvd_def)
  then have "(length p + 511) div 512 = q" by simp
  with k have "k + 1 \<le> q" by simp
  then have "512 * (k + 1) \<le> 512 * q" by (rule mult_le_mono2)
  with q have "512 * k + 512 \<le> length p" by simp
  then have "length c = 512" by (simp add: c)
  moreover have "bit_string c" unfolding c using b by (rule bit_string_take_drop)
  ultimately show "length c = 512 \<and> bit_string c" ..
qed

lemma process_chunks_in32:
  assumes "length H = 8" and "\<forall>x\<in>set H. in32 x"
    and "\<forall>c\<in>set chunks. length c = 512 \<and> bit_string c"
  shows "\<exists>H'. process_chunks H chunks = Inr H' \<and> length H' = 8 \<and> (\<forall>x\<in>set H'. in32 x)"
  using assms
proof (induction chunks arbitrary: H)
  case Nil
  then show ?case by simp
next
  case (Cons c chunks)
  from Cons.prems have c: "length c = 512" "bit_string c"
    and rest: "\<forall>c\<in>set chunks. length c = 512 \<and> bit_string c" by simp_all
  obtain H1 where p: "process_chunk H c = Inr H1"
    using process_chunk_word [OF Cons.prems(1,2) c] by blast
  then have "length H1 = 8 \<and> (\<forall>x\<in>set H1. in32 x)" by (rule process_chunk_in32)
  then have "\<exists>H'. process_chunks H1 chunks = Inr H' \<and> length H' = 8 \<and> (\<forall>x\<in>set H'. in32 x)"
    using rest by (intro Cons.IH) simp_all
  with p show ?case by simp
qed

text \<open>
  Claim C8. For every message (its bit string being a Python string), the digest
  computation returns without error a string of exactly 64 characters, each a lowercase
  hexadecimal digit: the final hash state has eight 32-bit words, and the string is their
  serialization word by word, eight hexadecimal digits per word, most significant first.
\<close>

theorem digest_is_64_hex_digits:
  assumes "py_str (to_binary message)"
  shows "\<exists>H. process_chunks H0 (create_chunks (pad_message (to_binary message))) = Inr H \<and>
             length H = 8 \<and> (\<forall>x\<in>set H. 0 \<le> x \<and> x < 2 ^ 32) \<and>
             sha256_simple message = Inr (concat (map (be_hex 8) H)) \<and>
             length (concat (map (be_hex 8) H)) = 64 \<and>
             set (concat (map (be_hex 8) H)) \<subseteq> set ''0123456789abcdef''"
proof -
  let ?p = "pad_message (to_binary message)"
  have "length (to_binary message) < 2 ^ 64" using assms by (rule py_str_length)
  then have "512 dvd length ?p" by (rule length_pad_message_dvd)
  moreover have "bit_string ?p" by (intro bit_string_pad_message bit_string_to_binary)
  ultimately have "\<forall>c\<in>set (create_chunks ?p). length c = 512 \<and> bit_string c"
    by (rule create_chunks_valid)
  from process_chunks_in32 [OF H0_props this]
  obtain H where H: "process_chunks H0 (create_chunks ?p) = Inr H" "length H = 8" "\<forall>x\<in>set H. in32 x"
    by blast
  have "sha256_simple message = Inr (hex_of_state H)"
    using H(1) by (simp add: sha256_simple_def Let_def)
  then have "sha256_simple message = Inr (concat (map (be_hex 8) H))"
    using H(3) by (simp only: hex_of_state_in32)
  moreover have "length (concat (map (be_hex 8) H)) = 64"
    using H(2) by (simp add: length_concat_be_hex)
  moreover have "\<forall>x\<in>set H. 0 \<le> x \<and> x < 2 ^ 32" using H(3) by (simp add: in32_def)
  ultimately show ?thesis using H(1,2) set_concat_be_hex [of 8 H] by blast
qed

text \<open>The statement at the message \<open>abc\<close>.\<close>

theorem digest_is_64_hex_digits_witness:
  "\<exists>H. process_chunks H0 (create_chunks (pad_message (to_binary [97, 98, 99]))) = Inr H \<and>
       length H = 8 \<and>
       sha256_simple [97, 98, 99] = Inr (concat (map (be_hex 8) H)) \<and>
       length (concat (map (be_hex 8) H)) = 64"
proof -
  have "length (to_binary [97, 98, 99]) = 8 * length [97, 98, 99 :: nat]"
    by (rule length_to_binary_bytes) simp
  then have "py_str (to_binary [97, 98, 99])" by (simp add: py_str_def sys_maxsize_def)
  from digest_is_64_hex_digits [OF this] show ?thesis by blast
qed

section \<open>Two known digests\<close>

lemma replicate_numeral_Cons: "replicate (numeral v) x = x # replicate (numeral v - 1) x"
  by (simp add: numeral_eq_Suc)

lemma create_chunks_single: "length p = 512 \<Longrightarrow> create_chunks p = [p]"
  by (simp add: create_chunks_def)

lemma abc_padded:
  "pad_message (to_binary [97, 98, 99]) =
     ''01100001011000100110001110000000000000000000000000000000000000000000000000000000000000000000000000000000000000000000000000000000000000000000000000000000000000000000000000000000000000000000000000000000000000000000000000000000000000000000000000000000000000000000000000000000000000000000000000000000000000000000000000000000000000000000000000000000000000000000000000000000000000000000000000000000000000000000000000000000000000000000000000000000000000000000000000000000000000000000000000000000000000000000000000011000''"
  by (simp add: pad_message_eq to_binary_def zero_pad_def format_b_def zfill_def bin_digits.simps
      digit_char_def replicate_numeral_Cons)

lemma abc_words:
  "create_words
     ''01100001011000100110001110000000000000000000000000000000000000000000000000000000000000000000000000000000000000000000000000000000000000000000000000000000000000000000000000000000000000000000000000000000000000000000000000000000000000000000000000000000000000000000000000000000000000000000000000000000000000000000000000000000000000000000000000000000000000000000000000000000000000000000000000000000000000000000000000000000000000000000000000000000000000000000000000000000000000000000000000000000000000000000000000011000'' =
   Inr [1633837952, 0, 0, 0, 0, 0,
        0, 0, 0, 0, 0, 0,
        0, 0, 0, 24, 1633837952, 983040,
        2108187653, 1610613702, 1050508152, 25426944, 316456923, 3806512014,
        3357629466, 3073800610, 3854317833, 845560923, 2636160359, 3968280267,
        1881225380, 3552024379, 2482346367, 996719219, 2952069057, 4043988066,
        176896406, 1924104970, 2483675966, 610538786, 2672279444, 4037431130,
        1042573945, 657669027, 206005234, 2215296807, 2049510749, 106709978,
        4215179723, 3430291419, 3118885940, 2845390439, 2226839261, 3256115900,
        344409900, 2987358873, 4015503821, 3957764664, 2682456414, 2025622859,
        2755645205, 1720397816, 4004225740, 313650667]"
  by (simp add: create_words_def int_base2_def upt_conv_Cons extend_words.simps next_word_def
      sched_s0_def sched_s1_def mask32_def)

lemma abc_rounds:
  "rounds [1633837952, 0, 0, 0, 0, 0,
      0, 0, 0, 0, 0, 0,
      0, 0, 0, 24, 1633837952, 983040,
      2108187653, 1610613702, 1050508152, 25426944, 316456923, 3806512014,
      3357629466, 3073800610, 3854317833, 845560923, 2636160359, 3968280267,
      1881225380, 3552024379, 2482346367, 996719219, 2952069057, 4043988066,
      176896406, 1924104970, 2483675966, 610538786, 2672279444, 4037431130,
      1042573945, 657669027, 206005234, 2215296807, 2049510749, 106709978,
      4215179723, 3430291419, 3118885940, 2845390439, 2226839261, 3256115900,
      344409900, 2987358873, 4015503821, 3957764664, 2682456414, 2025622859,
      2755645205, 1720397816, 4004225740, 313650667]
     \<lparr>va = 1779033703, vb = 3144134277, vc = 1013904242, vd = 2773480762, ve = 1359893119, vf = 2600822924, vg = 528734635, vh = 1541459225\<rparr> =
     \<lparr>va = 1349398616, vb = 3550093669, vc = 80891244, vd = 3093179625, ve = 1593118500, vf = 4212265488, vg = 2492278198, vh = 2518632596\<rparr>"
  unfolding rounds_def
  by (simp add: upt_conv_Cons round_body_def Let_def S0_def S1_def ch_def maj_def rightrotate_def
      mask32_def K_eval)

lemma abc_state:
  "process_chunks H0
     [''01100001011000100110001110000000000000000000000000000000000000000000000000000000000000000000000000000000000000000000000000000000000000000000000000000000000000000000000000000000000000000000000000000000000000000000000000000000000000000000000000000000000000000000000000000000000000000000000000000000000000000000000000000000000000000000000000000000000000000000000000000000000000000000000000000000000000000000000000000000000000000000000000000000000000000000000000000000000000000000000000000000000000000000000000011000''] =
   Inr [3128432319, 2399260650, 1094795486, 1571693091,
        2953011619, 2518121116, 3021012833, 4060091821]"
  by (simp add: process_chunk_def abc_words compress_def H0_eval abc_rounds mask32_def)

lemma abc_hex:
  "hex_of_state [3128432319, 2399260650, 1094795486, 1571693091,
        2953011619, 2518121116, 3021012833, 4060091821] =
     ''ba7816bf8f01cfea414140de5dae2223b00361a396177a9cb410ff61f20015ad''"
  by code_simp

text \<open>
  Claim C1. For the three-character message \<open>abc\<close> (code points 97, 98, 99) the digest
  computation returns the 64-character string
  \<open>ba7816bf8f01cfea414140de5dae2223b00361a396177a9cb410ff61f20015ad\<close>.
\<close>

theorem digest_abc:
  "sha256_simple [97, 98, 99] = Inr ''ba7816bf8f01cfea414140de5dae2223b00361a396177a9cb410ff61f20015ad''"
proof -
  have "create_chunks (pad_message (to_binary [97, 98, 99])) =
     [''01100001011000100110001110000000000000000000000000000000000000000000000000000000000000000000000000000000000000000000000000000000000000000000000000000000000000000000000000000000000000000000000000000000000000000000000000000000000000000000000000000000000000000000000000000000000000000000000000000000000000000000000000000000000000000000000000000000000000000000000000000000000000000000000000000000000000000000000000000000000000000000000000000000000000000000000000000000000000000000000000000000000000000000000000011000'']"
    unfolding abc_padded by (rule create_chunks_single) simp
  then show ?thesis
    unfolding sha256_simple_def Let_def by (simp only: abc_state abc_hex sum.case)
qed

lemma empty_padded:
  "pad_message (to_binary []) =
     ''10000000000000000000000000000000000000000000000000000000000000000000000000000000000000000000000000000000000000000000000000000000000000000000000000000000000000000000000000000000000000000000000000000000000000000000000000000000000000000000000000000000000000000000000000000000000000000000000000000000000000000000000000000000000000000000000000000000000000000000000000000000000000000000000000000000000000000000000000000000000000000000000000000000000000000000000000000000000000000000000000000000000000000000000000000000''"
  by (simp add: pad_message_eq to_binary_def zero_pad_def format_b_def zfill_def bin_digits.simps
      digit_char_def replicate_numeral_Cons)

lemma empty_words:
  "create_words
     ''10000000000000000000000000000000000000000000000000000000000000000000000000000000000000000000000000000000000000000000000000000000000000000000000000000000000000000000000000000000000000000000000000000000000000000000000000000000000000000000000000000000000000000000000000000000000000000000000000000000000000000000000000000000000000000000000000000000000000000000000000000000000000000000000000000000000000000000000000000000000000000000000000000000000000000000000000000000000000000000000000000000000000000000000000000000'' =
   Inr [2147483648, 0, 0, 0, 0, 0,
        0, 0, 0, 0, 0, 0,
        0, 0, 0, 0, 2147483648, 0,
        2117632, 0, 570427392, 0, 84448578, 2147483648,
        1476919296, 4235264, 1451269, 1711282176, 3592562048, 337794312,
        3594910044, 3374850048, 3287351444, 676112230, 109604294, 2742808854,
        1904000662, 4274181962, 2813755136, 2165675682, 2561075048, 62000258,
        1562224585, 2975250741, 3286092305, 614207615, 3297584367, 1575308336,
        3741240933, 748767245, 1008022316, 30329261, 369937616, 195877528,
        907775968, 3526495142, 43741191, 1967544444, 133517113, 4161330627,
        3704256008, 1581412744, 1153231965, 996066459]"
  by (simp add: create_words_def int_base2_def upt_conv_Cons extend_words.simps next_word_def
      sched_s0_def sched_s1_def mask32_def)

lemma empty_rounds:
  "rounds [2147483648, 0, 0, 0, 0, 0,
      0, 0, 0, 0, 0, 0,
      0, 0, 0, 0, 2147483648, 0,
      2117632, 0, 570427392, 0, 84448578, 2147483648,
      1476919296, 4235264, 1451269, 1711282176, 3592562048, 337794312,
      3594910044, 3374850048, 3287351444, 676112230, 109604294, 2742808854,
      1904000662, 4274181962, 2813755136, 2165675682, 2561075048, 62000258,
      1562224585, 2975250741, 3286092305, 614207615, 3297584367, 1575308336,
      3741240933, 748767245, 1008022316, 30329261, 369937616, 195877528,
      907775968, 3526495142, 43741191, 1967544444, 133517113, 4161330627,
      3704256008, 1581412744, 1153231965, 996066459]
     \<lparr>va = 1779033703, vb = 3144134277, vc = 1013904242, vd = 2773480762, ve = 1359893119, vf = 2600822924, vg = 528734635, vh = 1541459225\<rparr> =
     \<lparr>va = 2040978907, vb = 3717492111, vc = 1586299222, vd = 4095722474, ve = 3600805733, vf = 3382061760, vg = 2232532848, vh = 477227836\<rparr>"
  unfolding rounds_def
  by (simp add: upt_conv_Cons round_body_def Let_def S0_def S1_def ch_def maj_def rightrotate_def
      mask32_def K_eval)

lemma empty_state:
  "process_chunks H0
     [''10000000000000000000000000000000000000000000000000000000000000000000000000000000000000000000000000000000000000000000000000000000000000000000000000000000000000000000000000000000000000000000000000000000000000000000000000000000000000000000000000000000000000000000000000000000000000000000000000000000000000000000000000000000000000000000000000000000000000000000000000000000000000000000000000000000000000000000000000000000000000000000000000000000000000000000000000000000000000000000000000000000000000000000000000000000''] =
   Inr [3820012610, 2566659092, 2600203464, 2574235940,
        665731556, 1687917388, 2761267483, 2018687061]"
  by (simp add: process_chunk_def empty_words compress_def H0_eval empty_rounds mask32_def)

lemma empty_hex:
  "hex_of_state [3820012610, 2566659092, 2600203464, 2574235940,
        665731556, 1687917388, 2761267483, 2018687061] =
     ''e3b0c44298fc1c149afbf4c8996fb92427ae41e4649b934ca495991b7852b855''"
  by code_simp

text \<open>
  Claim C2. For the empty message the digest computation returns, without error, the
  64-character string
  \<open>e3b0c44298fc1c149afbf4c8996fb92427ae41e4649b934ca495991b7852b855\<close>.
\<close>

theorem digest_empty:
  "sha256_simple [] = Inr ''e3b0c44298fc1c149afbf4c8996fb92427ae41e4649b934ca495991b7852b855''"
proof -
  have "create_chunks (pad_message (to_binary [])) =
     [''10000000000000000000000000000000000000000000000000000000000000000000000000000000000000000000000000000000000000000000000000000000000000000000000000000000000000000000000000000000000000000000000000000000000000000000000000000000000000000000000000000000000000000000000000000000000000000000000000000000000000000000000000000000000000000000000000000000000000000000000000000000000000000000000000000000000000000000000000000000000000000000000000000000000000000000000000000000000000000000000000000000000000000000000000000000'']"
    unfolding empty_padded by (rule create_chunks_single) simp
  then show ?thesis
    unfolding sha256_simple_def Let_def by (simp only: empty_state empty_hex sum.case)
qed

end
